theory Spec2Isabelle
  imports Main "HOL-Library.Multiset"
begin

section \<open>Python primitives used by the notebook\<close>

text \<open>
  The program is Python: integers are unbounded (\<open>int\<close>), and a read \<open>xs[i]\<close> of a list
  counts a negative index from the end and raises \<open>IndexError\<close> outside
  \<open>-len(xs) \<le> i < len(xs)\<close>. Exceptions are values: a computation that may raise returns
  \<open>py_error + 'a\<close>, with \<open>Inl\<close> for the exception. Costs are modelled as exact integers (the
  notebook's own test matrix \<open>cross\<close> holds integers); floating-point rounding is outside
  the model.
\<close>

datatype py_error = IndexError | TypeError

definition raise_or :: "py_error + 'a \<Rightarrow> ('a \<Rightarrow> py_error + 'b) \<Rightarrow> py_error + 'b" where
  "raise_or r k = (case r of Inl e \<Rightarrow> Inl e | Inr v \<Rightarrow> k v)"

definition getitem :: "'a list \<Rightarrow> int \<Rightarrow> py_error + 'a" where
  "getitem xs i =
     (if 0 \<le> i \<and> i < int (length xs) then Inr (xs ! nat i)
      else if i < 0 \<and> - int (length xs) \<le> i then Inr (xs ! nat (int (length xs) + i))
      else Inl IndexError)"

text \<open>
  A slice bound \<open>xs[:b]\<close> or \<open>xs[b:]\<close> never raises: a negative bound counts from the end,
  and the result is clamped into \<open>0 .. len(xs)\<close>.
\<close>

definition slice_bound :: "nat \<Rightarrow> int \<Rightarrow> nat" where
  "slice_bound len b = (if b < 0 then nat (int len + b) else min len (nat b))"

definition slice :: "'a list \<Rightarrow> int \<Rightarrow> int \<Rightarrow> 'a list" where
  "slice xs lo hi = drop (slice_bound (length xs) lo) (take (slice_bound (length xs) hi) xs)"

definition slice_to :: "'a list \<Rightarrow> int \<Rightarrow> 'a list" where
  "slice_to xs hi = take (slice_bound (length xs) hi) xs"

definition slice_from :: "'a list \<Rightarrow> int \<Rightarrow> 'a list" where
  "slice_from xs lo = drop (slice_bound (length xs) lo) xs"

text \<open>\<open>str\<close> of an integer and of a list of integers, as Python prints them.\<close>

fun str_nat :: "nat \<Rightarrow> string" where
  "str_nat n =
     (if n < 10 then [''0123456789'' ! n]
      else str_nat (n div 10) @ [''0123456789'' ! (n mod 10)])"

declare str_nat.simps [simp del]

definition str_int :: "int \<Rightarrow> string" where
  "str_int i = (if i < 0 then ''-'' @ str_nat (nat (- i)) else str_nat (nat i))"

fun join_comma :: "string list \<Rightarrow> string" where
  "join_comma [] = []"
| "join_comma [s] = s"
| "join_comma (s # t # ss) = s @ '', '' @ join_comma (t # ss)"

definition str_list :: "int list \<Rightarrow> string" where
  "str_list xs = ''['' @ join_comma (map str_int xs) @ '']''"

section \<open>Class \<open>TSP\<close>\<close>

text \<open>
  The class attributes \<open>TSP.edges\<close> (the cost matrix, a list of rows) and \<open>TSP.routes\<close> (the
  dictionary of saved routes) are shared by every instance; they are the record
  \<open>tsp_class\<close>, passed to and returned by the methods that read or write them. The class
  attribute \<open>ratio\<close> is a float that no method reads and is left out. An instance is the
  record \<open>tsp\<close>.
\<close>

type_synonym matrix = "int list list"

record saved_route =
  saved_path :: "int list"
  saved_cost :: int

record tsp_class =
  edges :: matrix
  routes :: "string \<rightharpoonup> saved_route"

record tsp =
  nodes :: "int list"
  fast :: bool
  initial_path :: "int list"
  initial_cost :: int
  heuristic_path :: "int list"
  heuristic_cost :: int

definition dist :: "matrix \<Rightarrow> int \<Rightarrow> int \<Rightarrow> py_error + int" where
  "dist E i j = raise_or (getitem E i) (\<lambda>row. getitem row j)"

fun pathCost_loop :: "matrix \<Rightarrow> int list \<Rightarrow> int list \<Rightarrow> int \<Rightarrow> py_error + int" where
  "pathCost_loop E path [] cost = Inr cost"
| "pathCost_loop E path (i # rest) cost =
     raise_or (getitem path (i - 1)) (\<lambda>a.
     raise_or (getitem path i) (\<lambda>b.
     raise_or (dist E a b) (\<lambda>d.
     pathCost_loop E path rest (cost + d))))"

definition pathCost :: "matrix \<Rightarrow> int list \<Rightarrow> py_error + int" where
  "pathCost E path =
     raise_or (getitem path (- 1)) (\<lambda>a.
     raise_or (getitem path 0) (\<lambda>b.
     raise_or (dist E a b) (\<lambda>cost.
     pathCost_loop E path [1 .. int (length path) - 1] cost)))"

definition init :: "matrix \<Rightarrow> int list \<Rightarrow> bool \<Rightarrow> py_error + tsp" where
  "init E ns f =
     raise_or (pathCost E ns) (\<lambda>c.
     Inr \<lparr>nodes = ns, fast = f, initial_path = ns, initial_cost = c,
          heuristic_path = ns, heuristic_cost = c\<rparr>)"

definition route_key :: "int list \<Rightarrow> string" where
  "route_key path = str_list (sort path)"

definition save :: "tsp_class \<Rightarrow> tsp \<Rightarrow> int list \<Rightarrow> int \<Rightarrow> tsp_class \<times> tsp" where
  "save C t path cost =
     (C\<lparr>routes := (routes C)(route_key path \<mapsto> \<lparr>saved_path = path, saved_cost = cost\<rparr>)\<rparr>,
      t\<lparr>heuristic_path := path, heuristic_cost := cost\<rparr>)"

text \<open>
  \<open>update\<close> assigns \<open>heuristic_path\<close> before it calls \<open>pathCost\<close>; when \<open>pathCost\<close> raises,
  the instance returned with the exception already holds the new path.
\<close>

definition update :: "tsp_class \<Rightarrow> tsp \<Rightarrow> int list \<Rightarrow> (py_error + unit) \<times> tsp" where
  "update C t solution =
     (let t1 = t\<lparr>heuristic_path := filter (\<lambda>i. i \<in> set solution) (initial_path t)\<rparr>
      in case pathCost (edges C) (heuristic_path t1) of
           Inl e \<Rightarrow> (Inl e, t1)
         | Inr c \<Rightarrow> (Inr (), t1\<lparr>heuristic_cost := c\<rparr>))"

section \<open>Function \<open>swap\<close> and class \<open>TwoOpt\<close>\<close>

text \<open>The test matrix and the start tour of the notebook's third cell.\<close>

definition cross :: matrix where
  "cross = [[0, 2, 3, 2], [2, 0, 2, 3], [3, 2, 0, 2], [2, 3, 2, 0]]"

definition start :: "int list" where
  "start = [0, 2, 1, 3]"

definition swap :: "'a list \<Rightarrow> int \<Rightarrow> int \<Rightarrow> 'a list" where
  "swap path i j = slice_to path i @ rev (slice path i (j + 1)) @ slice_from path (j + 1)"

subsection \<open>One scan of the neighbourhood: \<open>_improve\<close>\<close>

text \<open>
  The body of the two nested \<open>for\<close> loops of \<open>_improve\<close>, up to the comparison: the four
  reads of the tour and the change of cost of the candidate pair \<open>(n, m)\<close>.
\<close>

definition change :: "matrix \<Rightarrow> int list \<Rightarrow> int \<Rightarrow> int \<Rightarrow> py_error + int" where
  "change E bestPath n m =
     raise_or (getitem bestPath n) (\<lambda>i.
     raise_or (getitem bestPath m) (\<lambda>j.
     raise_or (getitem bestPath (n + 1)) (\<lambda>k.
     raise_or (getitem bestPath (m + 1)) (\<lambda>l.
     raise_or (dist E i j) (\<lambda>dij.
     raise_or (dist E k l) (\<lambda>dkl.
     raise_or (dist E i k) (\<lambda>dik.
     raise_or (dist E j l) (\<lambda>djl.
     Inr ((dij + dkl) - (dik + djl))))))))))"

text \<open>
  The scan state is the pair \<open>(saved, bestChange)\<close>. The inner loop either runs to its end
  (\<open>Next\<close>) or leaves the method by the \<open>return\<close> of the fast mode (\<open>Return\<close>).
\<close>

type_synonym scan = "(int \<times> int) option \<times> int"

datatype flow = Next scan | Return scan

fun improve_inner ::
  "matrix \<Rightarrow> bool \<Rightarrow> int list \<Rightarrow> int \<Rightarrow> int list \<Rightarrow> scan \<Rightarrow> py_error + flow" where
  "improve_inner E fm bestPath n [] st = Inr (Next st)"
| "improve_inner E fm bestPath n (m # ms) st =
     raise_or (change E bestPath n m) (\<lambda>c.
       if c < snd st then
         (if fm then Inr (Return (Some (n, m), c))
          else improve_inner E fm bestPath n ms (Some (n, m), c))
       else improve_inner E fm bestPath n ms st)"

fun improve_outer ::
  "matrix \<Rightarrow> bool \<Rightarrow> int list \<Rightarrow> int \<Rightarrow> int list \<Rightarrow> scan \<Rightarrow> py_error + scan" where
  "improve_outer E fm bestPath sz [] st = Inr st"
| "improve_outer E fm bestPath sz (n # ns) st =
     raise_or (improve_inner E fm bestPath n [n + 2 .. sz - 2] st) (\<lambda>r.
       case r of
         Return st' \<Rightarrow> Inr st'
       | Next st' \<Rightarrow> improve_outer E fm bestPath sz ns st')"

definition improve :: "matrix \<Rightarrow> bool \<Rightarrow> int list \<Rightarrow> int \<Rightarrow> py_error + scan" where
  "improve E fm bestPath sz = improve_outer E fm bestPath sz [0 .. sz - 4] (None, 0)"

subsection \<open>The search loop: \<open>_optimise\<close>\<close>

text \<open>
  One turn of the \<open>while\<close> loop: the scan, then the unpacking of \<open>saved\<close> and the reversal
  when the scan found an improving pair. The loop state is \<open>(bestChange, bestPath)\<close>.
\<close>

definition optimise_body :: "matrix \<Rightarrow> bool \<Rightarrow> int \<Rightarrow> int list \<Rightarrow> py_error + int \<times> int list" where
  "optimise_body E fm sz bestPath =
     raise_or (improve E fm bestPath sz) (\<lambda>(saved, bestChange).
       if bestChange < 0 then
         (case saved of
            None \<Rightarrow> Inl TypeError
          | Some (i, j) \<Rightarrow> Inr (bestChange, swap bestPath (i + 1) j))
       else Inr (bestChange, bestPath))"

text \<open>
  The loop has no bound on its turns, so it is a partial function: \<open>None\<close> is a run that
  never leaves the loop, \<open>Some (Inl e)\<close> a run that raises, \<open>Some (Inr p)\<close> a run that leaves
  the loop with the tour \<open>p\<close>.
\<close>

partial_function (option) optimise_loop ::
  "matrix \<Rightarrow> bool \<Rightarrow> int \<Rightarrow> int \<times> int list \<Rightarrow> (py_error + int list) option" where
  "optimise_loop E fm sz st =
     (if fst st < 0 then
        (case optimise_body E fm sz (snd st) of
           Inl e \<Rightarrow> Some (Inl e)
         | Inr st' \<Rightarrow> optimise_loop E fm sz st')
      else Some (Inr (snd st)))"

declare optimise_loop.simps [code]

definition twoopt_optimise ::
  "tsp_class \<Rightarrow> tsp \<Rightarrow> ((py_error + unit) \<times> tsp_class \<times> tsp) option" where
  "twoopt_optimise C t =
     (case optimise_loop (edges C) (fast t) (int (length (heuristic_path t)))
             (- 1, heuristic_path t) of
        None \<Rightarrow> None
      | Some (Inl e) \<Rightarrow> Some (Inl e, C, t)
      | Some (Inr bestPath) \<Rightarrow>
          (case pathCost (edges C) bestPath of
             Inl e \<Rightarrow> Some (Inl e, C, t)
           | Inr c \<Rightarrow> (case save C t bestPath c of (C', t') \<Rightarrow> Some (Inr (), C', t'))))"

subsection \<open>\<open>TSP.optimise\<close> on a \<open>TwoOpt\<close> instance\<close>

definition optimise ::
  "tsp_class \<Rightarrow> tsp \<Rightarrow> ((py_error + int list \<times> int) \<times> tsp_class \<times> tsp) option" where
  "optimise C t =
     (case routes C (route_key (heuristic_path t)) of
        Some saved \<Rightarrow>
          (let t' = t\<lparr>heuristic_path := saved_path saved, heuristic_cost := saved_cost saved\<rparr>
           in Some (Inr (heuristic_path t', heuristic_cost t'), C, t'))
      | None \<Rightarrow>
          (case twoopt_optimise C t of
             None \<Rightarrow> None
           | Some (Inl e, C', t') \<Rightarrow> Some (Inl e, C', t')
           | Some (Inr u, C', t') \<Rightarrow> Some (Inr (heuristic_path t', heuristic_cost t'), C', t')))"

section \<open>Notions used to state the properties\<close>

text \<open>
  \<open>dtot\<close> is the cost that \<open>dist\<close> returns, as a total function (0 where \<open>dist\<close> raises).
  A matrix is valid on a set of nodes when \<open>dist\<close> returns a cost for every pair of them,
  and symmetric on it when \<open>dist\<close> gives the same result in both directions. \<open>cyc\<close> is the
  cost of a tour read as a cycle: the closing edge from the last node to the first, plus
  the edges between neighbours.
\<close>

definition dtot :: "matrix \<Rightarrow> int \<Rightarrow> int \<Rightarrow> int" where
  "dtot E a b = (case dist E a b of Inl e \<Rightarrow> 0 | Inr c \<Rightarrow> c)"

definition valid_on :: "matrix \<Rightarrow> int set \<Rightarrow> bool" where
  "valid_on E S = (\<forall>a\<in>S. \<forall>b\<in>S. dist E a b = Inr (dtot E a b))"

definition symmetric_on :: "matrix \<Rightarrow> int set \<Rightarrow> bool" where
  "symmetric_on E S = (\<forall>a\<in>S. \<forall>b\<in>S. dist E a b = dist E b a)"

fun path_len :: "matrix \<Rightarrow> int list \<Rightarrow> int" where
  "path_len E (x # y # zs) = dtot E x y + path_len E (y # zs)"
| "path_len E zs = 0"

definition cyc :: "matrix \<Rightarrow> int list \<Rightarrow> int" where
  "cyc E q = dtot E (last q) (hd q) + path_len E q"

text \<open>
  The scan of \<open>_improve\<close> over a flat list of candidate pairs: the body of its inner loop,
  applied to each pair in turn. \<open>candidates S\<close> lists the pairs \<open>(n, m)\<close> with
  \<open>n \<in> [0, S - 3]\<close> and \<open>m \<in> [n + 2, S - 2]\<close> in the order of the scan, and \<open>delta\<close> is the
  change of cost of a pair as the specification writes it.
\<close>

fun scan_list :: "matrix \<Rightarrow> bool \<Rightarrow> int list \<Rightarrow> (int \<times> int) list \<Rightarrow> scan \<Rightarrow> py_error + flow" where
  "scan_list E fm p [] st = Inr (Next st)"
| "scan_list E fm p (c # cs) st =
     raise_or (change E p (fst c) (snd c)) (\<lambda>d.
       if d < snd st then
         (if fm then Inr (Return (Some c, d)) else scan_list E fm p cs (Some c, d))
       else scan_list E fm p cs st)"

fun unflow :: "flow \<Rightarrow> scan" where
  "unflow (Next st) = st"
| "unflow (Return st) = st"

definition candidates :: "int \<Rightarrow> (int \<times> int) list" where
  "candidates S = concat (map (\<lambda>n. map (Pair n) [n + 2 .. S - 2]) [0 .. S - 3])"

definition delta :: "matrix \<Rightarrow> int list \<Rightarrow> int \<times> int \<Rightarrow> int" where
  "delta E tour c =
     (case c of (n, m) \<Rightarrow>
        dtot E (tour ! nat n) (tour ! nat m) + dtot E (tour ! nat (n + 1)) (tour ! nat (m + 1))
        - dtot E (tour ! nat n) (tour ! nat (n + 1)) - dtot E (tour ! nat m) (tour ! nat (m + 1)))"

text \<open>
  \<open>pick\<close> is the comparison of the loop body on the total \<open>delta\<close>; \<open>scan_ok\<close> is the
  invariant of the scan state: either nothing is saved and \<open>bestChange\<close> is 0, or the saved
  pair is a candidate whose change of cost is \<open>bestChange\<close> and is negative.
\<close>

definition pick :: "matrix \<Rightarrow> int list \<Rightarrow> scan \<Rightarrow> int \<times> int \<Rightarrow> scan" where
  "pick E tour st c = (if delta E tour c < snd st then (Some c, delta E tour c) else st)"

definition scan_ok :: "matrix \<Rightarrow> int list \<Rightarrow> (int \<times> int) set \<Rightarrow> scan \<Rightarrow> bool" where
  "scan_ok E tour A st =
     ((fst st = None \<and> snd st = 0) \<or>
      (\<exists>c\<in>A. fst st = Some c \<and> change E tour (fst c) (snd c) = Inr (snd st) \<and> snd st < 0))"

text \<open>
  A matrix that is not symmetric, with positive costs off the diagonal and 0 on it; it is an
  input that \<open>setEdges\<close> accepts.
\<close>

definition asym :: matrix where
  "asym = [[0, 1, 2, 1, 3], [1, 0, 1, 1, 3], [1, 1, 0, 3, 2], [1, 3, 1, 0, 2], [2, 1, 1, 3, 0]]"

text \<open>
  The class state and the instance of the docstring of \<open>TwoOpt\<close>: \<open>TSP.setEdges(cross)\<close>,
  \<open>t = TwoOpt(range(4))\<close>, then \<open>t.heuristic_path = start\<close> and \<open>t.heuristic_cost = 10\<close>.
\<close>

definition doctest_class :: tsp_class where
  "doctest_class = \<lparr>edges = cross, routes = Map.empty\<rparr>"

definition doctest_tsp :: tsp where
  "doctest_tsp = \<lparr>nodes = [0, 1, 2, 3], fast = False, initial_path = [0, 1, 2, 3],
     initial_cost = 8, heuristic_path = start, heuristic_cost = 10\<rparr>"

text \<open>
  Reading a string of decimal digits back as a number: the inverse of \<open>str_nat\<close>, used to
  show that \<open>str\<close> of a list of integers determines the list.
\<close>

definition digit_val :: "char \<Rightarrow> nat" where
  "digit_val c = of_char c - 48"

definition nat_of_str :: "string \<Rightarrow> nat" where
  "nat_of_str s = foldl (\<lambda>a c. 10 * a + digit_val c) 0 s"

section \<open>Reads, slices and \<open>swap\<close>\<close>

lemma raise_or_Inr [simp]: "raise_or (Inr v) k = k v"
  by (simp add: raise_or_def)

lemma raise_or_Inl [simp]: "raise_or (Inl e) k = Inl e"
  by (simp add: raise_or_def)

lemma getitem_nat: "i < length xs \<Longrightarrow> getitem xs (int i) = Inr (xs ! i)"
  by (simp add: getitem_def)

lemma getitem_last: "xs \<noteq> [] \<Longrightarrow> getitem xs (- 1) = Inr (last xs)"
  by (cases xs rule: rev_cases) (simp_all add: getitem_def nat_add_distrib)

lemma getitem_first: "xs \<noteq> [] \<Longrightarrow> getitem xs 0 = Inr (hd xs)"
  by (cases xs) (simp_all add: getitem_def)

lemma getitem_empty: "getitem [] i = Inl IndexError"
  by (simp add: getitem_def)

lemma upto_as_upt_gen: "[int m .. int n - 1] = map int [m ..< n]"
proof (induction n)
  case 0
  then show ?case by simp
next
  case (Suc n)
  show ?case
  proof (cases "m \<le> n")
    case True
    then have "[int m .. int (Suc n) - 1] = [int m .. int n - 1] @ [int n]"
      using upto_rec2 [of "int m" "int n"] by simp
    then show ?thesis using True Suc by simp
  next
    case False
    then show ?thesis by simp
  qed
qed

lemma upto_as_upt: "[1 .. int n - 1] = map int [1 ..< n]"
  using upto_as_upt_gen [of 1 n] by simp

lemma slice_bound_nat: "i \<le> n \<Longrightarrow> slice_bound n (int i) = i"
  by (simp add: slice_bound_def)

lemma swap_nat:
  "i \<le> length p \<Longrightarrow> j < length p \<Longrightarrow>
   swap p (int i) (int j) = take i p @ rev (drop i (take (Suc j) p)) @ drop (Suc j) p"
proof -
  assume a: "i \<le> length p" "j < length p"
  have "int j + 1 = int (Suc j)" by simp
  with a show ?thesis
    unfolding swap_def slice_def slice_to_def slice_from_def
    by (simp only: slice_bound_nat Suc_leI)
qed

lemma swap_length: "i \<le> Suc j \<Longrightarrow> j < length p \<Longrightarrow> length (swap p (int i) (int j)) = length p"
  by (simp add: swap_nat) 

lemma mset_take_drop: "mset (take n xs) + mset (drop n xs) = mset xs"
proof -
  have "mset (take n xs) + mset (drop n xs) = mset (take n xs @ drop n xs)"
    by (rule mset_append [symmetric])
  also have "\<dots> = mset xs" by (simp only: append_take_drop_id)
  finally show ?thesis .
qed

lemma swap_mset: "i \<le> Suc j \<Longrightarrow> j < length p \<Longrightarrow> mset (swap p (int i) (int j)) = mset p"
proof -
  assume a: "i \<le> Suc j" "j < length p"
  have t: "take i (take (Suc j) p) = take i p" using a by (simp add: min_def)
  have "mset (swap p (int i) (int j))
        = (mset (take i (take (Suc j) p)) + mset (drop i (take (Suc j) p))) + mset (drop (Suc j) p)"
    using a by (simp add: swap_nat t)
  also have "\<dots> = mset (take (Suc j) p) + mset (drop (Suc j) p)"
    by (simp only: mset_take_drop)
  also have "\<dots> = mset p" by (rule mset_take_drop)
  finally show ?thesis .
qed

lemma swap_nth:
  assumes "i \<le> j" "j < length p" "k < length p"
  shows "swap p (int i) (int j) ! k = (if i \<le> k \<and> k \<le> j then p ! (i + j - k) else p ! k)"
proof -
  have sw: "swap p (int i) (int j) = take i p @ rev (drop i (take (Suc j) p)) @ drop (Suc j) p"
    using assms by (simp add: swap_nat)
  have l1: "length (take i p) = i" using assms by simp
  have l2: "length (rev (drop i (take (Suc j) p))) = Suc j - i" using assms by simp
  show ?thesis
  proof (cases "k < i")
    case True
    then show ?thesis using assms by (simp add: sw nth_append)
  next
    case False
    note ki = this
    show ?thesis
    proof (cases "k \<le> j")
      case True
      have "(take i p @ rev (drop i (take (Suc j) p)) @ drop (Suc j) p) ! k
            = rev (drop i (take (Suc j) p)) ! (k - i)"
        using ki True assms by (simp add: nth_append)
      also have "\<dots> = drop i (take (Suc j) p) ! (Suc j - i - Suc (k - i))"
        using ki True assms by (simp add: rev_nth)
      also have "\<dots> = p ! (i + j - k)"
        using ki True assms by (simp add: min_def) 
      finally show ?thesis using ki True by (simp add: sw)
    next
      case False
      then have "\<not> k - i < Suc j - i" using assms by arith
      moreover have "Suc j + (k - i - (Suc j - i)) = k" using False ki assms by arith
      ultimately show ?thesis using False ki assms by (simp add: sw nth_append min_def)
    qed
  qed
qed

section \<open>The cost of a tour\<close>

lemma dtot_Inr: "dist E a b = Inr c \<Longrightarrow> dtot E a b = c"
  by (simp add: dtot_def)

lemma dtot_sym: "symmetric_on E S \<Longrightarrow> a \<in> S \<Longrightarrow> b \<in> S \<Longrightarrow> dtot E a b = dtot E b a"
  by (simp add: symmetric_on_def dtot_def)

lemma path_len_Cons: "ys \<noteq> [] \<Longrightarrow> path_len E (x # ys) = dtot E x (hd ys) + path_len E ys"
  by (cases ys) simp_all

lemma path_len_append:
  "xs \<noteq> [] \<Longrightarrow> ys \<noteq> [] \<Longrightarrow>
   path_len E (xs @ ys) = path_len E xs + dtot E (last xs) (hd ys) + path_len E ys"
proof (induction xs)
  case Nil
  then show ?case by simp
next
  case (Cons x xs)
  show ?case
  proof (cases "xs = []")
    case True
    then show ?thesis using Cons.prems by (simp add: path_len_Cons)
  next
    case False
    then show ?thesis using Cons by (simp add: path_len_Cons)
  qed
qed

lemma path_len_rev:
  "symmetric_on E S \<Longrightarrow> set ys \<subseteq> S \<Longrightarrow> path_len E (rev ys) = path_len E ys"
proof (induction ys)
  case Nil
  then show ?case by simp
next
  case (Cons y ys)
  show ?case
  proof (cases "ys = []")
    case True
    then show ?thesis by simp
  next
    case False
    then have "hd ys \<in> S" using Cons.prems by auto
    then have "dtot E (hd ys) y = dtot E y (hd ys)"
      using Cons.prems dtot_sym [of E S "hd ys" y] by simp
    then show ?thesis
      using False Cons by (simp add: path_len_append path_len_Cons last_rev)
  qed
qed

lemma cyc_reverse_middle:
  assumes "symmetric_on E S" "set ys \<subseteq> S" "xs \<noteq> []" "ys \<noteq> []" "zs \<noteq> []"
  shows "cyc E (xs @ rev ys @ zs)
         = cyc E (xs @ ys @ zs)
           + (dtot E (last xs) (last ys) + dtot E (hd ys) (hd zs))
           - (dtot E (last xs) (hd ys) + dtot E (last ys) (hd zs))"
proof -
  have r: "path_len E (rev ys) = path_len E ys" using assms by (simp add: path_len_rev)
  have "path_len E (xs @ rev ys @ zs)
        = path_len E xs + dtot E (last xs) (last ys) + path_len E ys
          + dtot E (hd ys) (hd zs) + path_len E zs"
    using assms by (simp add: path_len_append r hd_rev last_rev)
  moreover have "path_len E (xs @ ys @ zs)
        = path_len E xs + dtot E (last xs) (hd ys) + path_len E ys
          + dtot E (last ys) (hd zs) + path_len E zs"
    using assms by (simp add: path_len_append)
  ultimately show ?thesis using assms by (simp add: cyc_def)
qed

lemma path_len_sum: "path_len E q = (\<Sum>j\<leftarrow>[1 ..< length q]. dtot E (q ! (j - 1)) (q ! j))"
proof (induction E q rule: path_len.induct)
  case (1 E x y zs)
  have "[1 ..< length (x # y # zs)] = 1 # map Suc [1 ..< length (y # zs)]"
    by (subst upt_rec) (simp add: map_Suc_upt del: upt_Suc)
  then have "(\<Sum>j\<leftarrow>[1 ..< length (x # y # zs)]. dtot E ((x # y # zs) ! (j - 1)) ((x # y # zs) ! j))
     = dtot E x y + (\<Sum>j\<leftarrow>[1 ..< length (y # zs)]. dtot E ((x # y # zs) ! (Suc j - 1)) ((x # y # zs) ! Suc j))"
    by (simp add: comp_def)
  also have "(\<Sum>j\<leftarrow>[1 ..< length (y # zs)]. dtot E ((x # y # zs) ! (Suc j - 1)) ((x # y # zs) ! Suc j))
     = (\<Sum>j\<leftarrow>[1 ..< length (y # zs)]. dtot E ((y # zs) ! (j - 1)) ((y # zs) ! j))"
    by (rule arg_cong [where f = sum_list], rule map_cong) (auto simp: nth_Cons')
  finally show ?case using 1 by simp
qed simp_all

lemma pathCost_loop_sum:
  assumes "valid_on E (set path)" "\<forall>j\<in>set js. 1 \<le> j \<and> j < length path"
  shows "pathCost_loop E path (map int js) cost
         = Inr (cost + (\<Sum>j\<leftarrow>js. dtot E (path ! (j - 1)) (path ! j)))"
  using assms(2)
proof (induction js arbitrary: cost)
  case Nil
  then show ?case by simp
next
  case (Cons j js)
  then have j: "1 \<le> j" "j < length path" by simp_all
  then have g1: "getitem path (int j - 1) = Inr (path ! (j - 1))"
    using getitem_nat [of "j - 1" path] by (simp add: of_nat_diff)
  have g2: "getitem path (int j) = Inr (path ! j)" using j by (simp add: getitem_nat)
  have d: "dist E (path ! (j - Suc 0)) (path ! j) = Inr (dtot E (path ! (j - Suc 0)) (path ! j))"
    using assms(1) j by (simp add: valid_on_def)
  show ?case using Cons by (simp add: g1 g2 d add.assoc)
qed

lemma pathCost_cyc:
  assumes "valid_on E (set path)" "path \<noteq> []"
  shows "pathCost E path = Inr (cyc E path)"
proof -
  have e: "dist E (last path) (hd path) = Inr (dtot E (last path) (hd path))"
    using assms by (simp add: valid_on_def)
  have "pathCost_loop E path (map int [1 ..< length path]) (dtot E (last path) (hd path))
        = Inr (dtot E (last path) (hd path)
               + (\<Sum>j\<leftarrow>[1 ..< length path]. dtot E (path ! (j - 1)) (path ! j)))"
    using assms by (intro pathCost_loop_sum) auto
  then show ?thesis
    using assms
    by (simp add: pathCost_def getitem_last getitem_first e upto_as_upt cyc_def path_len_sum)
qed

lemma pathCost_empty: "pathCost E [] = Inl IndexError"
  by (simp add: pathCost_def getitem_empty)

section \<open>One scan of the candidate pairs\<close>

lemma improve_inner_flat:
  "improve_inner E fm p n ms st = scan_list E fm p (map (Pair n) ms) st"
proof (induction ms arbitrary: st fm)
  case Nil
  then show ?case by simp
next
  case (Cons m ms)
  show ?case
    by (cases "change E p n m") (simp_all add: Cons)
qed

lemma scan_list_append:
  "scan_list E fm p (xs @ ys) st
   = raise_or (scan_list E fm p xs st)
       (\<lambda>r. case r of Return s \<Rightarrow> Inr (Return s) | Next s \<Rightarrow> scan_list E fm p ys s)"
proof (induction xs arbitrary: st fm)
  case Nil
  then show ?case by simp
next
  case (Cons c xs)
  show ?case
    by (cases "change E p (fst c) (snd c)") (simp_all add: Cons)
qed

lemma improve_outer_flat:
  "improve_outer E fm p sz ns st
   = raise_or (scan_list E fm p (concat (map (\<lambda>n. map (Pair n) [n + 2 .. sz - 2]) ns)) st)
       (\<lambda>r. Inr (unflow r))"
proof (induction ns arbitrary: st)
  case Nil
  then show ?case by simp
next
  case (Cons n ns)
  show ?case
  proof (cases "scan_list E fm p (map (Pair n) [n + 2 .. sz - 2]) st")
    case (Inl e)
    then show ?thesis by (simp add: improve_inner_flat scan_list_append)
  next
    case (Inr r)
    then show ?thesis by (cases r) (simp_all add: improve_inner_flat scan_list_append Cons)
  qed
qed

lemma candidates_code: "candidates sz = concat (map (\<lambda>n. map (Pair n) [n + 2 .. sz - 2]) [0 .. sz - 4])"
proof (cases "0 \<le> sz - 3")
  case True
  then have "[0 .. sz - 3] = [0 .. sz - 4] @ [sz - 3]"
    using upto_rec2 [of 0 "sz - 3"] by simp
  then show ?thesis by (simp add: candidates_def)
next
  case False
  then show ?thesis by (simp add: candidates_def)
qed

lemma improve_flat:
  "improve E fm p sz = raise_or (scan_list E fm p (candidates sz) (None, 0)) (\<lambda>r. Inr (unflow r))"
  by (simp add: improve_def improve_outer_flat candidates_code)

lemma set_candidates:
  "set (candidates S) = {(n, m). 0 \<le> n \<and> n \<le> S - 3 \<and> n + 2 \<le> m \<and> m \<le> S - 2}"
  by (force simp: candidates_def)

lemma distinct_candidates: "distinct (candidates S)"
proof -
  have "inj_on (\<lambda>n. map (Pair n) [n + 2 .. S - 2]) (set [0 .. S - 4])"
  proof (rule inj_onI)
    fix x y
    assume x: "x \<in> set [0 .. S - 4]" and y: "y \<in> set [0 .. S - 4]"
      and e: "map (Pair x) [x + 2 .. S - 2] = map (Pair y) [y + 2 .. S - 2]"
    have "[x + 2 .. S - 2] = (x + 2) # [x + 2 + 1 .. S - 2]"
      using x upto_rec1 [of "x + 2" "S - 2"] by simp
    moreover have "[y + 2 .. S - 2] = (y + 2) # [y + 2 + 1 .. S - 2]"
      using y upto_rec1 [of "y + 2" "S - 2"] by simp
    ultimately show "x = y" using e by simp
  qed
  then have "distinct (map (\<lambda>n. map (Pair n) [n + 2 .. S - 2]) [0 .. S - 4])"
    by (simp add: distinct_map)
  then show ?thesis
    unfolding candidates_code
    by (rule distinct_concat) (auto simp: distinct_map inj_on_def)
qed

lemma raise_or_eq_Inr: "raise_or r k = Inr v \<longleftrightarrow> (\<exists>x. r = Inr x \<and> k x = Inr v)"
  by (cases r) simp_all

lemma getitem_Inr_nonneg:
  "getitem xs i = Inr v \<Longrightarrow> 0 \<le> i \<Longrightarrow> i < int (length xs) \<and> v = xs ! nat i"
  by (simp add: getitem_def split: if_splits)

lemma getitem_int: "0 \<le> i \<Longrightarrow> i < int (length xs) \<Longrightarrow> getitem xs i = Inr (xs ! nat i)"
  by (simp add: getitem_def)

lemma scan_list_ok:
  "scan_ok E p A st \<Longrightarrow> set cs \<subseteq> A \<Longrightarrow> scan_list E fm p cs st = Inr r \<Longrightarrow> scan_ok E p A (unflow r)"
proof (induction cs arbitrary: st)
  case Nil
  then show ?case by auto
next
  case (Cons c cs)
  from Cons.prems(3) obtain d where d: "change E p (fst c) (snd c) = Inr d"
    by (cases "change E p (fst c) (snd c)") simp_all
  have le: "snd st \<le> 0" using Cons.prems(1) by (auto simp: scan_ok_def)
  show ?case
  proof (cases "d < snd st")
    case True
    then have ok: "scan_ok E p A (Some c, d)" using d le Cons.prems(2) by (auto simp: scan_ok_def)
    show ?thesis
    proof (cases fm)
      case True
      then show ?thesis using \<open>d < snd st\<close> d Cons.prems(3) ok by auto
    next
      case False
      then have "scan_list E fm p cs (Some c, d) = Inr r" using \<open>d < snd st\<close> d Cons.prems(3) by simp
      then show ?thesis using Cons.IH [OF ok] Cons.prems(2) by simp
    qed
  next
    case False
    then have "scan_list E fm p cs st = Inr r" using d Cons.prems(3) by simp
    then show ?thesis using Cons.IH [OF Cons.prems(1)] Cons.prems(2) by simp
  qed
qed

lemma scan_list_full:
  "\<forall>c\<in>set cs. change E p (fst c) (snd c) = Inr (delta E p c) \<Longrightarrow>
   scan_list E False p cs st = Inr (Next (foldl (pick E p) st cs))"
  by (induction cs arbitrary: st) (simp_all add: pick_def)

lemma scan_list_fast:
  "\<forall>c\<in>set cs. change E p (fst c) (snd c) = Inr (delta E p c) \<Longrightarrow>
   scan_list E True p cs st
   = Inr (case find (\<lambda>c. delta E p c < snd st) cs of
            None \<Rightarrow> Next st
          | Some c \<Rightarrow> Return (Some c, delta E p c))"
  by (induction cs arbitrary: st) simp_all

lemma foldl_pick_le:
  "snd (foldl (pick E p) st cs) \<le> snd st \<and> (\<forall>c\<in>set cs. snd (foldl (pick E p) st cs) \<le> delta E p c)"
proof (induction cs arbitrary: st)
  case Nil
  then show ?case by simp
next
  case (Cons c cs)
  have "snd (pick E p st c) \<le> snd st" "snd (pick E p st c) \<le> delta E p c"
    by (simp_all add: pick_def)
  then show ?case using Cons [of "pick E p st c"] by auto
qed

lemma foldl_pick_cases:
  "foldl (pick E p) st cs = st \<or>
   (\<exists>c\<in>set cs. foldl (pick E p) st cs = (Some c, delta E p c) \<and> delta E p c < snd st)"
proof (induction cs arbitrary: st)
  case Nil
  then show ?case by simp
next
  case (Cons c cs)
  show ?case
  proof (cases "delta E p c < snd st")
    case True
    then have "pick E p st c = (Some c, delta E p c)" by (simp add: pick_def)
    then show ?thesis using Cons [of "(Some c, delta E p c)"] True by auto
  next
    case False
    then have "pick E p st c = st" by (simp add: pick_def)
    then show ?thesis using Cons [of st] by auto
  qed
qed

lemma raise_orE:
  assumes "raise_or r k = Inr v"
  obtains x where "r = Inr x" "k x = Inr v"
  using assms by (cases r) simp_all

lemma change_delta:
  assumes "change E p n m = Inr c" "0 \<le> n" "0 \<le> m"
  shows "c = delta E p (n, m) \<and> n + 1 < int (length p) \<and> m + 1 < int (length p)"
proof -
  from assms(1) obtain i j k l dij dkl dik djl where
    g: "getitem p n = Inr i" "getitem p m = Inr j"
       "getitem p (n + 1) = Inr k" "getitem p (m + 1) = Inr l" and
    d: "dist E i j = Inr dij" "dist E k l = Inr dkl" "dist E i k = Inr dik" "dist E j l = Inr djl" and
    c: "c = (dij + dkl) - (dik + djl)"
    unfolding change_def by (elim raise_orE) auto
  have i: "p ! nat n = i" using g(1) assms(2) getitem_Inr_nonneg [of p n i] by simp
  have j: "p ! nat m = j" using g(2) assms(3) getitem_Inr_nonneg [of p m j] by simp
  have k: "p ! nat (n + 1) = k" "n + 1 < int (length p)"
    using g(3) assms(2) getitem_Inr_nonneg [of p "n + 1" k] by simp_all
  have l: "p ! nat (m + 1) = l" "m + 1 < int (length p)"
    using g(4) assms(3) getitem_Inr_nonneg [of p "m + 1" l] by simp_all
  have t: "dtot E i j = dij" "dtot E k l = dkl" "dtot E i k = dik" "dtot E j l = djl"
    using d by (simp_all add: dtot_def)
  have "delta E p (n, m) = dij + dkl - dik - djl"
    by (simp only: delta_def prod.case i j k l t)
  then show ?thesis using c k(2) l(2) by simp
qed

lemma change_total:
  assumes "valid_on E (set p)" "0 \<le> n" "0 \<le> m" "n + 1 < int (length p)" "m + 1 < int (length p)"
  shows "change E p n m = Inr (delta E p (n, m))"
proof -
  have g: "getitem p n = Inr (p ! nat n)" "getitem p m = Inr (p ! nat m)"
    "getitem p (n + 1) = Inr (p ! nat (n + 1))" "getitem p (m + 1) = Inr (p ! nat (m + 1))"
    using assms by (simp_all add: getitem_int)
  have s: "p ! nat n \<in> set p" "p ! nat m \<in> set p" "p ! nat (n + 1) \<in> set p" "p ! nat (m + 1) \<in> set p"
    using assms by simp_all
  have d: "\<And>a b. a \<in> set p \<Longrightarrow> b \<in> set p \<Longrightarrow> dist E a b = Inr (dtot E a b)"
    using assms(1) by (simp add: valid_on_def)
  show ?thesis by (simp add: change_def g d s delta_def)
qed

lemma candidates_change_total:
  assumes "valid_on E (set p)" "c \<in> set (candidates (int (length p)))"
  shows "change E p (fst c) (snd c) = Inr (delta E p c)"
proof -
  obtain n m where c: "c = (n, m)" by (cases c)
  then have "0 \<le> n" "0 \<le> m" "n + 1 < int (length p)" "m + 1 < int (length p)"
    using assms(2) by (simp_all add: set_candidates)
  then show ?thesis using assms(1) c by (simp add: change_total)
qed

lemma improve_sound:
  assumes "improve E fm p sz = Inr (saved, best)"
  shows "(saved = None \<and> best = 0) \<or>
         (\<exists>n m. saved = Some (n, m) \<and> (n, m) \<in> set (candidates sz) \<and>
                change E p n m = Inr best \<and> best < 0)"
proof -
  from assms obtain r where r: "scan_list E fm p (candidates sz) (None, 0) = Inr r"
    and u: "unflow r = (saved, best)"
    by (auto simp: improve_flat raise_or_eq_Inr)
  have "scan_ok E p (set (candidates sz)) (None, 0)" by (simp add: scan_ok_def)
  then have "scan_ok E p (set (candidates sz)) (unflow r)" using r scan_list_ok by blast
  then show ?thesis using u by (auto simp: scan_ok_def)
qed

lemma improve_full:
  assumes "valid_on E (set tour)"
  shows "improve E False tour (int (length tour))
         = Inr (foldl (pick E tour) (None, 0) (candidates (int (length tour))))"
proof -
  have "\<forall>c\<in>set (candidates (int (length tour))).
          change E tour (fst c) (snd c) = Inr (delta E tour c)"
    using assms candidates_change_total by blast
  then show ?thesis by (simp add: improve_flat scan_list_full)
qed

lemma improve_fast:
  assumes "valid_on E (set tour)"
  shows "improve E True tour (int (length tour))
         = Inr (case find (\<lambda>c. delta E tour c < 0) (candidates (int (length tour))) of
                  None \<Rightarrow> (None, 0)
                | Some c \<Rightarrow> (Some c, delta E tour c))"
proof -
  have "\<forall>c\<in>set (candidates (int (length tour))).
          change E tour (fst c) (snd c) = Inr (delta E tour c)"
    using assms candidates_change_total by blast
  then show ?thesis by (simp add: improve_flat scan_list_fast split: option.split)
qed

lemma valid_on_cross_start: "valid_on cross (set start)"
  by (simp add: start_def valid_on_def cross_def dist_def dtot_def getitem_def)

section \<open>The search loop\<close>

lemma swap_cyc_nat:
  assumes sym: "symmetric_on E (set p)" and i: "0 < i" "i \<le> j" "Suc j < length p"
  shows "cyc E (swap p (int i) (int j))
         = cyc E p + (dtot E (p ! (i - 1)) (p ! j) + dtot E (p ! i) (p ! Suc j))
                   - (dtot E (p ! (i - 1)) (p ! i) + dtot E (p ! j) (p ! Suc j))"
proof -
  let ?xs = "take i p" and ?ys = "drop i (take (Suc j) p)" and ?zs = "drop (Suc j) p"
  have sw: "swap p (int i) (int j) = ?xs @ rev ?ys @ ?zs" using i by (simp add: swap_nat)
  have "take i (take (Suc j) p) = take i p" using i by (simp add: min_def)
  then have "?xs @ ?ys = take (Suc j) p" by (metis append_take_drop_id)
  then have p: "?xs @ ?ys @ ?zs = p" by (metis append_assoc append_take_drop_id)
  have ne: "?xs \<noteq> []" "?ys \<noteq> []" "?zs \<noteq> []" using i by auto
  have sub: "set ?ys \<subseteq> set p" by (meson set_drop_subset set_take_subset subset_trans)
  have e: "last ?xs = p ! (i - 1)" "hd ?ys = p ! i" "last ?ys = p ! j" "hd ?zs = p ! Suc j"
    using i ne by (simp_all add: last_conv_nth hd_drop_conv_nth min_def)
  show ?thesis
    using cyc_reverse_middle [OF sym sub ne] by (simp only: sw p e)
qed

lemma swap_cyc:
  assumes "symmetric_on E (set p)" "0 \<le> n" "n + 2 \<le> m" "m + 1 < int (length p)"
  shows "cyc E (swap p (n + 1) m) = cyc E p + delta E p (n, m)"
proof -
  have "cyc E (swap p (int (nat (n + 1))) (int (nat m)))
        = cyc E p + (dtot E (p ! (nat (n + 1) - 1)) (p ! nat m) + dtot E (p ! nat (n + 1)) (p ! Suc (nat m)))
                   - (dtot E (p ! (nat (n + 1) - 1)) (p ! nat (n + 1)) + dtot E (p ! nat m) (p ! Suc (nat m)))"
    using assms by (intro swap_cyc_nat) auto
  moreover have "nat (n + 1) - 1 = nat n" "Suc (nat m) = nat (m + 1)" using assms by auto
  ultimately show ?thesis using assms by (simp add: delta_def)
qed

lemma swap_mset_int:
  assumes "0 \<le> n" "n + 2 \<le> m" "m + 1 < int (length p)"
  shows "mset (swap p (n + 1) m) = mset p"
proof -
  have "mset (swap p (int (nat (n + 1))) (int (nat m))) = mset p"
    using assms by (intro swap_mset) auto
  then show ?thesis using assms by simp
qed

lemma optimise_body_cases:
  assumes "optimise_body E fm sz p = Inr (c, p')"
  shows "(c = 0 \<and> p' = p) \<or>
         (c < 0 \<and> (\<exists>n m. (n, m) \<in> set (candidates sz) \<and> change E p n m = Inr c \<and>
                         p' = swap p (n + 1) m))"
proof -
  from assms obtain saved best where i: "improve E fm p sz = Inr (saved, best)"
    by (cases "improve E fm p sz") (auto simp: optimise_body_def)
  from improve_sound [OF i] show ?thesis
  proof
    assume "saved = None \<and> best = 0"
    then show ?thesis using assms i by (simp add: optimise_body_def)
  next
    assume "\<exists>n m. saved = Some (n, m) \<and> (n, m) \<in> set (candidates sz) \<and>
                  change E p n m = Inr best \<and> best < 0"
    then obtain n m where "saved = Some (n, m)" "(n, m) \<in> set (candidates sz)"
      "change E p n m = Inr best" "best < 0" by blast
    then show ?thesis using assms i by (auto simp: optimise_body_def)
  qed
qed

lemma optimise_body_accept:
  assumes sym: "symmetric_on E (set p)"
    and b: "optimise_body E fm (int (length p)) p = Inr (c, p')" and c: "c < 0"
  shows "mset p' = mset p \<and> cyc E p' = cyc E p + c"
proof -
  from optimise_body_cases [OF b] c obtain n m where
    nm: "(n, m) \<in> set (candidates (int (length p)))" and ch: "change E p n m = Inr c"
    and p': "p' = swap p (n + 1) m" by auto
  have r: "0 \<le> n" "n + 2 \<le> m" "m + 1 < int (length p)" using nm by (simp_all add: set_candidates)
  then have "0 \<le> m" by simp
  then have d: "c = delta E p (n, m)" using change_delta [OF ch r(1)] by simp
  show ?thesis using swap_cyc [OF sym r] swap_mset_int [OF r] d p' by simp
qed

lemma optimise_loop_stop: "\<not> bc < 0 \<Longrightarrow> optimise_loop E fm sz (bc, q) = Some (Inr q)"
  by (subst optimise_loop.simps) simp

lemma optimise_loop_step:
  "bc < 0 \<Longrightarrow> optimise_body E fm sz q = Inr st' \<Longrightarrow>
   optimise_loop E fm sz (bc, q) = optimise_loop E fm sz st'"
  by (subst optimise_loop.simps) simp

lemma optimise_loop_raise:
  "bc < 0 \<Longrightarrow> optimise_body E fm sz q = Inl e \<Longrightarrow>
   optimise_loop E fm sz (bc, q) = Some (Inl e)"
  by (subst optimise_loop.simps) simp

lemma optimise_body_stop:
  assumes "optimise_body E fm sz q = Inr (c, q')" "\<not> c < 0"
  shows "improve E fm q sz = Inr (None, 0) \<and> q' = q \<and> c = 0"
proof -
  from assms(1) obtain saved best where i: "improve E fm q sz = Inr (saved, best)"
    by (cases "improve E fm q sz") (auto simp: optimise_body_def)
  have "c = best" using assms i by (auto simp: optimise_body_def split: if_splits option.splits)
  then have "saved = None \<and> best = 0" using improve_sound [OF i] assms(2) by auto
  then show ?thesis using assms(1) i by (simp add: optimise_body_def)
qed

lemma optimise_loop_converges:
  assumes sym: "symmetric_on E (set p0)"
  shows "mset q = mset p0 \<Longrightarrow> bc < 0 \<Longrightarrow>
         \<exists>r. optimise_loop E fm (int (length p0)) (bc, q) = Some r \<and>
             (\<forall>p'. r = Inr p' \<longrightarrow> improve E fm p' (int (length p')) = Inr (None, 0))"
proof (induction "nat (cyc E q - Min (cyc E ` {q. mset q = mset p0}))" arbitrary: q bc rule: less_induct)
  case less
  let ?lb = "Min (cyc E ` {q. mset q = mset p0})"
  have fin: "finite (cyc E ` {q. mset q = mset p0})" by (simp add: mset_eq_finite)
  have lb: "\<And>q'. mset q' = mset p0 \<Longrightarrow> ?lb \<le> cyc E q'" using fin by (simp add: Min_le)
  have len: "length q = length p0" using less.prems(1) by (rule mset_eq_length)
  have symq: "symmetric_on E (set q)" using sym less.prems(1) by (metis mset_eq_setD)
  show ?case
  proof (cases "optimise_body E fm (int (length p0)) q")
    case (Inl e)
    then show ?thesis using less.prems(2) by (simp add: optimise_loop_raise)
  next
    case (Inr st')
    obtain c q' where st': "st' = (c, q')" by (cases st')
    have step: "optimise_loop E fm (int (length p0)) (bc, q)
                = optimise_loop E fm (int (length p0)) (c, q')"
      using less.prems(2) Inr st' by (simp add: optimise_loop_step)
    show ?thesis
    proof (cases "c < 0")
      case False
      have "improve E fm q (int (length p0)) = Inr (None, 0) \<and> q' = q"
        using optimise_body_stop [of E fm "int (length p0)" q c q'] Inr st' False by simp
      then show ?thesis using step False len by (simp add: optimise_loop_stop)
    next
      case True
      have b: "optimise_body E fm (int (length q)) q = Inr (c, q')" using Inr st' len by simp
      have acc: "mset q' = mset q" "cyc E q' = cyc E q + c"
        using optimise_body_accept [OF symq b True] by simp_all
      have m: "mset q' = mset p0" using acc less.prems(1) by simp
      have "?lb \<le> cyc E q'" using m by (rule lb)
      then have "nat (cyc E q' - ?lb) < nat (cyc E q - ?lb)" using acc True by simp
      then have "\<exists>r. optimise_loop E fm (int (length p0)) (c, q') = Some r \<and>
             (\<forall>p'. r = Inr p' \<longrightarrow> improve E fm p' (int (length p')) = Inr (None, 0))"
        using less.hyps m True by blast
      then show ?thesis using step by simp
    qed
  qed
qed

lemma optimise_loop_mset_aux:
  "optimise_loop E fm sz st = Some r \<Longrightarrow>
   sz = int (length (snd st)) \<longrightarrow> (\<forall>q. r = Inr q \<longrightarrow> mset q = mset (snd st))"
proof (rule optimise_loop.raw_induct
    [where P = "\<lambda>E fm sz st r.
       sz = int (length (snd st)) \<longrightarrow> (\<forall>q. r = Inr q \<longrightarrow> mset q = mset (snd st))"])
  fix loop :: "matrix \<Rightarrow> bool \<Rightarrow> int \<Rightarrow> int \<times> int list \<Rightarrow> (py_error + int list) option"
  fix E fm sz st r
  assume IH: "\<And>E fm sz st r. loop E fm sz st = Some r \<Longrightarrow>
     sz = int (length (snd st)) \<longrightarrow> (\<forall>q. r = Inr q \<longrightarrow> mset q = mset (snd st))"
  assume eq: "(if fst st < 0
      then case optimise_body E fm sz (snd st) of
             Inl e \<Rightarrow> Some (Inl e)
           | Inr st' \<Rightarrow> loop E fm sz st'
      else Some (Inr (snd st))) = Some r"
  show "sz = int (length (snd st)) \<longrightarrow> (\<forall>q. r = Inr q \<longrightarrow> mset q = mset (snd st))"
  proof (intro impI allI)
    fix q
    assume sz: "sz = int (length (snd st))" and r: "r = Inr q"
    show "mset q = mset (snd st)"
    proof (cases "fst st < 0")
      case False
      then show ?thesis using eq r by simp
    next
      case True
      show ?thesis
      proof (cases "optimise_body E fm sz (snd st)")
        case (Inl e)
        then show ?thesis using True eq r by simp
      next
        case (Inr st')
        obtain c q' where st': "st' = (c, q')" by (cases st')
        have l: "loop E fm sz st' = Some r" using eq True Inr by simp
        have b: "optimise_body E fm (int (length (snd st))) (snd st) = Inr (c, q')"
          using Inr st' sz by simp
        have m: "mset q' = mset (snd st)"
        proof (cases "c < 0")
          case True
          from optimise_body_cases [OF b] True obtain n m where
            nm: "(n, m) \<in> set (candidates (int (length (snd st))))"
            and p': "q' = swap (snd st) (n + 1) m" by auto
          have "0 \<le> n" "n + 2 \<le> m" "m + 1 < int (length (snd st))"
            using nm by (simp_all add: set_candidates)
          then show ?thesis using swap_mset_int p' by simp
        next
          case False
          then show ?thesis using optimise_body_cases [OF b] by auto
        qed
        have "length q' = length (snd st)" using m by (rule mset_eq_length)
        then have "sz = int (length (snd st'))" using sz st' by simp
        then have "mset q = mset (snd st')" using IH [OF l] r by simp
        then show ?thesis using m st' by simp
      qed
    qed
  qed
qed

lemma optimise_loop_mset:
  "optimise_loop E fm (int (length p)) (bc, p) = Some (Inr q) \<Longrightarrow> mset q = mset p"
  using optimise_loop_mset_aux [of E fm "int (length p)" "(bc, p)" "Inr q"] by simp

lemma asym_turns:
  "optimise_body asym False 5 [0, 1, 2, 3, 4] = Inr (- 1, [0, 2, 1, 3, 4])"
  "optimise_body asym False 5 [0, 2, 1, 3, 4] = Inr (- 1, [0, 3, 1, 2, 4])"
  "optimise_body asym False 5 [0, 3, 1, 2, 4] = Inr (- 1, [0, 3, 2, 1, 4])"
  "optimise_body asym False 5 [0, 3, 2, 1, 4] = Inr (- 1, [0, 1, 2, 3, 4])"
  by code_simp+

lemma asym_turns_fast:
  "optimise_body asym True 5 [0, 1, 2, 3, 4] = Inr (- 1, [0, 2, 1, 3, 4])"
  "optimise_body asym True 5 [0, 2, 1, 3, 4] = Inr (- 1, [0, 3, 1, 2, 4])"
  "optimise_body asym True 5 [0, 3, 1, 2, 4] = Inr (- 1, [0, 3, 2, 1, 4])"
  "optimise_body asym True 5 [0, 3, 2, 1, 4] = Inr (- 1, [0, 1, 2, 3, 4])"
  by code_simp+

lemma asym_never_returns_aux:
  "optimise_loop E fm sz st = Some r \<Longrightarrow>
   \<not> (E = asym \<and> sz = 5 \<and> fst st < 0 \<and>
      snd st \<in> {[0, 1, 2, 3, 4], [0, 2, 1, 3, 4], [0, 3, 1, 2, 4], [0, 3, 2, 1, 4]})"
proof (rule optimise_loop.raw_induct
    [where P = "\<lambda>E fm sz st r.
       \<not> (E = asym \<and> sz = 5 \<and> fst st < 0 \<and>
          snd st \<in> {[0, 1, 2, 3, 4], [0, 2, 1, 3, 4], [0, 3, 1, 2, 4], [0, 3, 2, 1, 4]})"])
  fix loop :: "matrix \<Rightarrow> bool \<Rightarrow> int \<Rightarrow> int \<times> int list \<Rightarrow> (py_error + int list) option"
  fix E fm sz st r
  assume IH: "\<And>E fm sz st r. loop E fm sz st = Some r \<Longrightarrow>
     \<not> (E = asym \<and> sz = 5 \<and> fst st < 0 \<and>
        snd st \<in> {[0, 1, 2, 3, 4], [0, 2, 1, 3, 4], [0, 3, 1, 2, 4], [0, 3, 2, 1, 4]})"
  assume eq: "(if fst st < 0
      then case optimise_body E fm sz (snd st) of
             Inl e \<Rightarrow> Some (Inl e)
           | Inr st' \<Rightarrow> loop E fm sz st'
      else Some (Inr (snd st))) = Some r"
  show "\<not> (E = asym \<and> sz = 5 \<and> fst st < 0 \<and>
        snd st \<in> {[0, 1, 2, 3, 4], [0, 2, 1, 3, 4], [0, 3, 1, 2, 4], [0, 3, 2, 1, 4]})"
  proof
    assume a: "E = asym \<and> sz = 5 \<and> fst st < 0 \<and>
        snd st \<in> {[0, 1, 2, 3, 4], [0, 2, 1, 3, 4], [0, 3, 1, 2, 4], [0, 3, 2, 1, 4]}"
    then obtain q' where b: "optimise_body asym fm 5 (snd st) = Inr (- 1, q')"
      and q': "q' \<in> {[0, 1, 2, 3, 4], [0, 2, 1, 3, 4], [0, 3, 1, 2, 4], [0, 3, 2, 1, 4]}"
      using asym_turns asym_turns_fast by (cases fm) auto
    have "loop asym fm 5 (- 1, q') = Some r" using eq a b by simp
    then show False using IH [of asym fm 5 "(- 1, q')" r] q' by simp
  qed
qed

lemma asym_never_returns: "optimise_loop asym fm 5 (- 1, [0, 1, 2, 3, 4]) = None"
proof (cases "optimise_loop asym fm 5 (- 1, [0, 1, 2, 3, 4])")
  case None
  then show ?thesis .
next
  case (Some r)
  then show ?thesis using asym_never_returns_aux [OF Some] by simp
qed

lemma valid_on_mset: "valid_on E (set p) \<Longrightarrow> mset q = mset p \<Longrightarrow> valid_on E (set q)"
  by (metis mset_eq_setD)

lemma symmetric_on_cross_start: "symmetric_on cross (set start)"
  by (simp add: start_def symmetric_on_def cross_def dist_def getitem_def)

lemma cross_start_turn: "optimise_body cross False (int (length start)) start = Inr (- 2, [0, 1, 2, 3])"
  by code_simp

lemma optimise_body_valid:
  assumes "valid_on E (set q)"
  shows "\<exists>st'. optimise_body E fm (int (length q)) q = Inr st'"
proof -
  have "\<exists>x. improve E fm q (int (length q)) = Inr x"
    using improve_full [OF assms] improve_fast [OF assms] by (cases fm) simp_all
  then obtain saved best where i: "improve E fm q (int (length q)) = Inr (saved, best)"
    by auto
  show ?thesis
  proof (cases "best < 0")
    case True
    then obtain n m where "saved = Some (n, m)" using improve_sound [OF i] by auto
    then show ?thesis using i True by (simp add: optimise_body_def)
  next
    case False
    then show ?thesis using i by (simp add: optimise_body_def)
  qed
qed

lemma optimise_loop_no_raise:
  "optimise_loop E fm sz st = Some r \<Longrightarrow>
   sz = int (length (snd st)) \<and> valid_on E (set (snd st)) \<longrightarrow> (\<forall>e. r \<noteq> Inl e)"
proof (rule optimise_loop.raw_induct
    [where P = "\<lambda>E fm sz st r.
       sz = int (length (snd st)) \<and> valid_on E (set (snd st)) \<longrightarrow> (\<forall>e. r \<noteq> Inl e)"])
  fix loop :: "matrix \<Rightarrow> bool \<Rightarrow> int \<Rightarrow> int \<times> int list \<Rightarrow> (py_error + int list) option"
  fix E fm sz st r
  assume IH: "\<And>E fm sz st r. loop E fm sz st = Some r \<Longrightarrow>
     sz = int (length (snd st)) \<and> valid_on E (set (snd st)) \<longrightarrow> (\<forall>e. r \<noteq> Inl e)"
  assume eq: "(if fst st < 0
      then case optimise_body E fm sz (snd st) of
             Inl e \<Rightarrow> Some (Inl e)
           | Inr st' \<Rightarrow> loop E fm sz st'
      else Some (Inr (snd st))) = Some r"
  show "sz = int (length (snd st)) \<and> valid_on E (set (snd st)) \<longrightarrow> (\<forall>e. r \<noteq> Inl e)"
  proof (intro impI allI)
    fix e
    assume a: "sz = int (length (snd st)) \<and> valid_on E (set (snd st))"
    show "r \<noteq> Inl e"
    proof (cases "fst st < 0")
      case False
      then show ?thesis using eq by auto
    next
      case True
      obtain st' where b: "optimise_body E fm sz (snd st) = Inr st'"
        using a optimise_body_valid [of E "snd st" fm] by auto
      obtain c q' where st': "st' = (c, q')" by (cases st')
      have l: "loop E fm sz st' = Some r" using eq True b by simp
      have b': "optimise_body E fm (int (length (snd st))) (snd st) = Inr (c, q')"
        using b st' a by simp
      have m: "mset q' = mset (snd st)"
      proof (cases "c < 0")
        case True
        from optimise_body_cases [OF b'] True obtain n m where
          nm: "(n, m) \<in> set (candidates (int (length (snd st))))"
          and p': "q' = swap (snd st) (n + 1) m" by auto
        have "0 \<le> n" "n + 2 \<le> m" "m + 1 < int (length (snd st))"
          using nm by (simp_all add: set_candidates)
        then show ?thesis using swap_mset_int p' by simp
      next
        case False
        then show ?thesis using optimise_body_cases [OF b'] by auto
      qed
      have "length q' = length (snd st)" using m by (rule mset_eq_length)
      moreover have "valid_on E (set q')" using a m valid_on_mset by blast
      ultimately have "sz = int (length (snd st')) \<and> valid_on E (set (snd st'))"
        using a st' by simp
      then show ?thesis using IH [OF l] by simp
    qed
  qed
qed

lemma optimise_loop_converges_valid:
  assumes sym: "symmetric_on E (set tour)" and v: "valid_on E (set tour)"
  shows "\<exists>p. optimise_loop E fm (int (length tour)) (- 1, tour) = Some (Inr p) \<and>
             mset p = mset tour \<and> improve E fm p (int (length p)) = Inr (None, 0)"
proof -
  obtain r where r: "optimise_loop E fm (int (length tour)) (- 1, tour) = Some r"
    and opt: "\<forall>p. r = Inr p \<longrightarrow> improve E fm p (int (length p)) = Inr (None, 0)"
    using optimise_loop_converges [OF sym, of tour "- 1" fm] by auto
  have "\<exists>p. r = Inr p"
  proof (cases r)
    case (Inr p)
    then show ?thesis by simp
  next
    case (Inl e)
    then have "optimise_loop E fm (int (length tour)) (- 1, tour) = Some (Inl e)" using r by simp
    then have False using v optimise_loop_no_raise [of E fm "int (length tour)" "(- 1, tour)" "Inl e"]
      by simp
    then show ?thesis ..
  qed
  then obtain p where p: "r = Inr p" by blast
  then have "mset p = mset tour" using r optimise_loop_mset by blast
  then show ?thesis using r p opt by simp
qed

section \<open>The methods of the instance\<close>

lemma twoopt_optimise_result:
  assumes "twoopt_optimise C t = Some (Inr u, C', t')"
  shows "\<exists>p c. optimise_loop (edges C) (fast t) (int (length (heuristic_path t)))
                 (- 1, heuristic_path t) = Some (Inr p) \<and>
               pathCost (edges C) p = Inr c \<and>
               C' = C\<lparr>routes := (routes C)(route_key p \<mapsto> \<lparr>saved_path = p, saved_cost = c\<rparr>)\<rparr> \<and>
               t' = t\<lparr>heuristic_path := p, heuristic_cost := c\<rparr>"
  using assms
  by (auto simp: twoopt_optimise_def save_def split: option.splits sum.splits)

lemma twoopt_optimise_raises:
  assumes "twoopt_optimise C t = Some (Inl e, C', t')"
  shows "C' = C \<and> t' = t"
  using assms
  by (auto simp: twoopt_optimise_def save_def split: option.splits sum.splits)

lemma route_key_mset: "mset p = mset q \<Longrightarrow> route_key p = route_key q"
proof -
  assume "mset p = mset q"
  then have "sort p = sort q" by (simp add: properties_for_sort)
  then show ?thesis by (simp add: route_key_def)
qed

lemma digit_val_nth: "k < 10 \<Longrightarrow> digit_val (''0123456789'' ! k) = k"
proof -
  assume "k < 10"
  then have "k = 0 \<or> k = 1 \<or> k = 2 \<or> k = 3 \<or> k = 4 \<or> k = 5 \<or> k = 6 \<or> k = 7 \<or> k = 8 \<or> k = 9"
    by arith
  then show ?thesis by (elim disjE) (simp_all add: digit_val_def)
qed

lemma digit_nth_in: "k < 10 \<Longrightarrow> ''0123456789'' ! k \<in> set ''0123456789''"
  by (rule nth_mem) simp

lemma nat_of_str_snoc: "nat_of_str (s @ [c]) = 10 * nat_of_str s + digit_val c"
  by (simp add: nat_of_str_def)

lemma nat_of_str_nat: "nat_of_str (str_nat n) = n"
proof (induction n rule: str_nat.induct)
  case (1 n)
  show ?case
  proof (cases "n < 10")
    case True
    then have "str_nat n = [''0123456789'' ! n]" by (subst str_nat.simps) simp
    then show ?thesis using True digit_val_nth [of n] by (simp add: nat_of_str_def)
  next
    case False
    then have s: "str_nat n = str_nat (n div 10) @ [''0123456789'' ! (n mod 10)]"
      by (subst str_nat.simps) simp
    have "nat_of_str (str_nat (n div 10)) = n div 10" using 1 False by simp
    then show ?thesis using digit_val_nth [of "n mod 10"] by (simp only: s nat_of_str_snoc) simp
  qed
qed

lemma str_nat_inj: "str_nat n = str_nat m \<Longrightarrow> n = m"
proof -
  assume "str_nat n = str_nat m"
  then have "nat_of_str (str_nat n) = nat_of_str (str_nat m)" by simp
  then show ?thesis by (simp only: nat_of_str_nat)
qed

lemma str_nat_digits: "set (str_nat n) \<subseteq> set ''0123456789''"
proof (induction n rule: str_nat.induct)
  case (1 n)
  show ?case
  proof (cases "n < 10")
    case True
    then have "str_nat n = [''0123456789'' ! n]" by (subst str_nat.simps) simp
    then show ?thesis using digit_nth_in [OF True] by simp
  next
    case False
    then have s: "str_nat n = str_nat (n div 10) @ [''0123456789'' ! (n mod 10)]"
      by (subst str_nat.simps) simp
    have "set (str_nat (n div 10)) \<subseteq> set ''0123456789''" using 1 False by simp
    moreover have "''0123456789'' ! (n mod 10) \<in> set ''0123456789''"
      by (rule digit_nth_in) simp
    ultimately show ?thesis by (simp only: s set_append) simp
  qed
qed

lemma str_nat_nonempty: "str_nat n \<noteq> []"
  by (subst str_nat.simps) simp

lemma str_nat_no_minus: "hd (str_nat n) \<noteq> CHR ''-''"
proof -
  have "hd (str_nat n) \<in> set (str_nat n)" using str_nat_nonempty by simp
  then have "hd (str_nat n) \<in> set ''0123456789''" using str_nat_digits by blast
  then show ?thesis by auto
qed

lemma str_int_inj: "str_int i = str_int j \<Longrightarrow> i = j"
proof -
  assume e: "str_int i = str_int j"
  have h: "\<And>k. hd (str_int k) = CHR ''-'' \<longleftrightarrow> k < 0"
    using str_nat_no_minus by (simp add: str_int_def)
  have s: "(i < 0) = (j < 0)" using h [of i] h [of j] e by simp
  show ?thesis
  proof (cases "i < 0")
    case True
    then have "str_nat (nat (- i)) = str_nat (nat (- j))" using e s by (simp add: str_int_def)
    then have "nat (- i) = nat (- j)" by (rule str_nat_inj)
    then show ?thesis using True s by simp
  next
    case False
    then have "str_nat (nat i) = str_nat (nat j)" using e s by (simp add: str_int_def)
    then have "nat i = nat j" by (rule str_nat_inj)
    then show ?thesis using False s by simp
  qed
qed

lemma str_int_nonempty: "str_int i \<noteq> []"
  by (simp add: str_int_def str_nat_nonempty)

lemma str_int_no_comma: "CHR '','' \<notin> set (str_int i)"
proof -
  have "CHR '','' \<notin> set (str_nat n)" for n using str_nat_digits [of n] by auto
  then show ?thesis by (simp add: str_int_def)
qed

lemma join_comma_Cons:
  "join_comma (s # ss) = s @ (if ss = [] then [] else '', '' @ join_comma ss)"
  by (cases ss) simp_all

lemma join_comma_nonempty: "s \<noteq> [] \<Longrightarrow> join_comma (s # ss) \<noteq> []"
  by (simp add: join_comma_Cons)

lemma takeWhile_join:
  assumes "CHR '','' \<notin> set s"
  shows "takeWhile (\<lambda>c. c \<noteq> CHR '','') (join_comma (s # ss)) = s"
proof -
  have "takeWhile (\<lambda>c. c \<noteq> CHR '','') (s @ (if ss = [] then [] else '', '' @ join_comma ss))
        = s @ takeWhile (\<lambda>c. c \<noteq> CHR '','') (if ss = [] then [] else '', '' @ join_comma ss)"
    using assms by (intro takeWhile_append2) auto
  then show ?thesis by (simp add: join_comma_Cons)
qed

lemma dropWhile_join:
  assumes "CHR '','' \<notin> set s"
  shows "dropWhile (\<lambda>c. c \<noteq> CHR '','') (join_comma (s # ss))
         = (if ss = [] then [] else '', '' @ join_comma ss)"
proof -
  have "dropWhile (\<lambda>c. c \<noteq> CHR '','') (s @ (if ss = [] then [] else '', '' @ join_comma ss))
        = dropWhile (\<lambda>c. c \<noteq> CHR '','') (if ss = [] then [] else '', '' @ join_comma ss)"
    using assms by (intro dropWhile_append2) auto
  then show ?thesis by (simp add: join_comma_Cons)
qed

lemma join_comma_inj:
  assumes "\<forall>s\<in>set xs. s \<noteq> [] \<and> CHR '','' \<notin> set s"
    and "\<forall>s\<in>set ys. s \<noteq> [] \<and> CHR '','' \<notin> set s"
    and "join_comma xs = join_comma ys"
  shows "xs = ys"
  using assms
proof (induction xs arbitrary: ys)
  case Nil
  show ?case
  proof (cases ys)
    case Nil
    then show ?thesis by simp
  next
    case (Cons y ys')
    then have "join_comma ys \<noteq> []" using Nil.prems(2) by (simp add: join_comma_nonempty)
    then show ?thesis using Nil.prems(3) by simp
  qed
next
  case (Cons x xs)
  have x: "x \<noteq> []" "CHR '','' \<notin> set x" using Cons.prems(1) by simp_all
  show ?case
  proof (cases ys)
    case Nil
    have "join_comma (x # xs) \<noteq> []" using x by (simp add: join_comma_nonempty)
    then show ?thesis using Cons.prems(3) Nil by simp
  next
    case c: (Cons y ys')
    have y: "y \<noteq> []" "CHR '','' \<notin> set y" using Cons.prems(2) c by simp_all
    have e: "join_comma (x # xs) = join_comma (y # ys')" using Cons.prems(3) c by simp
    have "takeWhile (\<lambda>c. c \<noteq> CHR '','') (join_comma (x # xs))
          = takeWhile (\<lambda>c. c \<noteq> CHR '','') (join_comma (y # ys'))"
      using e by simp
    then have xy: "x = y"
      by (simp only: takeWhile_join [OF x(2)] takeWhile_join [OF y(2)])
    have "dropWhile (\<lambda>c. c \<noteq> CHR '','') (join_comma (x # xs))
          = dropWhile (\<lambda>c. c \<noteq> CHR '','') (join_comma (y # ys'))"
      using e by simp
    then have r: "(if xs = [] then [] else '', '' @ join_comma xs)
                  = (if ys' = [] then [] else '', '' @ join_comma ys')"
      by (simp only: dropWhile_join [OF x(2)] dropWhile_join [OF y(2)])
    have "xs = ys'"
    proof (cases "xs = []")
      case True
      then show ?thesis using r by (cases "ys' = []") simp_all
    next
      case False
      then have n: "ys' \<noteq> []" using r by (cases "ys' = []") simp_all
      then have "join_comma xs = join_comma ys'" using r False by simp
      then show ?thesis using Cons.IH [of ys'] Cons.prems(1,2) c by simp
    qed
    then show ?thesis using xy c by simp
  qed
qed

lemma str_list_inj: "str_list xs = str_list ys \<Longrightarrow> xs = ys"
proof -
  assume "str_list xs = str_list ys"
  then have "join_comma (map str_int xs) = join_comma (map str_int ys)"
    by (simp add: str_list_def)
  moreover have "\<forall>s\<in>set (map str_int xs). s \<noteq> [] \<and> CHR '','' \<notin> set s"
    using str_int_nonempty str_int_no_comma by auto
  moreover have "\<forall>s\<in>set (map str_int ys). s \<noteq> [] \<and> CHR '','' \<notin> set s"
    using str_int_nonempty str_int_no_comma by auto
  ultimately have "map str_int xs = map str_int ys" using join_comma_inj by blast
  moreover have "inj str_int" using str_int_inj by (rule injI)
  ultimately show ?thesis by (simp add: inj_map_eq_map)
qed

lemma route_key_iff: "route_key p = route_key q \<longleftrightarrow> mset p = mset q"
proof
  assume "route_key p = route_key q"
  then have "sort p = sort q" using str_list_inj by (simp add: route_key_def)
  then have "mset (sort p) = mset (sort q)" by simp
  then show "mset p = mset q" by simp
next
  assume "mset p = mset q"
  then show "route_key p = route_key q" by (rule route_key_mset)
qed

lemma optimise_hit:
  "routes C (route_key (heuristic_path t)) = Some s \<Longrightarrow>
   optimise C t
     = Some (Inr (saved_path s, saved_cost s), C,
             t\<lparr>heuristic_path := saved_path s, heuristic_cost := saved_cost s\<rparr>)"
  by (simp add: optimise_def)

lemma optimise_miss:
  "routes C (route_key (heuristic_path t)) = None \<Longrightarrow>
   optimise C t
     = (case twoopt_optimise C t of
          None \<Rightarrow> None
        | Some (Inl e, C', t') \<Rightarrow> Some (Inl e, C', t')
        | Some (Inr u, C', t') \<Rightarrow> Some (Inr (heuristic_path t', heuristic_cost t'), C', t'))"
  by (simp add: optimise_def)

lemma twoopt_optimise_run:
  assumes l: "optimise_loop (edges C) (fast t) (int (length (heuristic_path t)))
                (- 1, heuristic_path t) = Some (Inr p)"
    and c: "pathCost (edges C) p = Inr c"
  shows "twoopt_optimise C t
         = Some (Inr (),
                 C\<lparr>routes := (routes C)(route_key (heuristic_path t) \<mapsto>
                                  \<lparr>saved_path = p, saved_cost = c\<rparr>)\<rparr>,
                 t\<lparr>heuristic_path := p, heuristic_cost := c\<rparr>)"
proof -
  have "mset p = mset (heuristic_path t)" using l by (rule optimise_loop_mset)
  then have k: "route_key p = route_key (heuristic_path t)" by (rule route_key_mset)
  show ?thesis unfolding twoopt_optimise_def save_def by (simp add: l c k)
qed

lemma optimise_returns_state:
  assumes "optimise C t = Some (Inr (p, c), C', t')"
  shows "heuristic_path t' = p \<and> heuristic_cost t' = c"
proof (cases "routes C (route_key (heuristic_path t))")
  case (Some s)
  then show ?thesis using assms by (auto simp: optimise_def)
next
  case None
  show ?thesis
  proof (cases "twoopt_optimise C t")
    case n: None
    then show ?thesis using assms None by (simp add: optimise_def)
  next
    case (Some x)
    obtain r D s where x: "x = (r, D, s)" by (cases x)
    show ?thesis using assms None Some x by (cases r) (auto simp: optimise_def)
  qed
qed

lemma doctest_loop:
  "optimise_loop (edges doctest_class) (fast doctest_tsp)
     (int (length (heuristic_path doctest_tsp))) (- 1, heuristic_path doctest_tsp)
   = Some (Inr [0, 1, 2, 3])"
  by code_simp

lemma doctest_cost: "pathCost (edges doctest_class) [0, 1, 2, 3] = Inr 8"
  by code_simp

lemma doctest_optimise:
  "twoopt_optimise doctest_class doctest_tsp
   = Some (Inr (),
       doctest_class\<lparr>routes := (routes doctest_class)(route_key start \<mapsto>
                                  \<lparr>saved_path = [0, 1, 2, 3], saved_cost = 8\<rparr>)\<rparr>,
       doctest_tsp\<lparr>heuristic_path := [0, 1, 2, 3], heuristic_cost := 8\<rparr>)"
proof -
  have "heuristic_path doctest_tsp = start" by (simp add: doctest_tsp_def)
  then show ?thesis using twoopt_optimise_run [OF doctest_loop doctest_cost] by simp
qed

lemma update_eq:
  "update C t solution
   = (case pathCost (edges C) (filter (\<lambda>i. i \<in> set solution) (initial_path t)) of
        Inl e \<Rightarrow> (Inl e, t\<lparr>heuristic_path := filter (\<lambda>i. i \<in> set solution) (initial_path t)\<rparr>)
      | Inr c \<Rightarrow> (Inr (), t\<lparr>heuristic_path := filter (\<lambda>i. i \<in> set solution) (initial_path t),
                            heuristic_cost := c\<rparr>))"
  by (simp add: update_def Let_def)

lemma update_path:
  "heuristic_path (snd (update C t solution)) = filter (\<lambda>i. i \<in> set solution) (initial_path t)"
  by (simp add: update_eq split: sum.split)

lemma init_empty: "init E [] f = Inl IndexError"
  by (simp add: init_def pathCost_empty)

lemma optimise_raises:
  assumes "optimise C t = Some (Inl e, C', t')"
  shows "C' = C \<and> t' = t"
proof (cases "routes C (route_key (heuristic_path t))")
  case (Some s)
  then show ?thesis using assms by (simp add: optimise_hit)
next
  case None
  show ?thesis
  proof (cases "twoopt_optimise C t")
    case n: None
    then show ?thesis using assms None by (simp add: optimise_miss)
  next
    case (Some x)
    obtain r D s where x: "x = (r, D, s)" by (cases x)
    show ?thesis
    proof (cases r)
      case (Inl e')
      then have "twoopt_optimise C t = Some (Inl e', D, s)" using Some x by simp
      then have "D = C \<and> s = t" by (rule twoopt_optimise_raises)
      then show ?thesis using assms None Some x Inl by (simp add: optimise_miss)
    next
      case (Inr u)
      then show ?thesis using assms None Some x by (simp add: optimise_miss)
    qed
  qed
qed

lemma empty_tour_raises:
  "twoopt_optimise doctest_class (doctest_tsp\<lparr>heuristic_path := []\<rparr>)
   = Some (Inl IndexError, doctest_class, doctest_tsp\<lparr>heuristic_path := []\<rparr>)"
proof -
  have "optimise_loop cross False 0 (- 1, []) = Some (Inr [])" by code_simp
  then show ?thesis
    by (simp add: twoopt_optimise_def doctest_class_def doctest_tsp_def pathCost_empty)
qed

lemma optimise_miss_converges:
  assumes "routes C (route_key (heuristic_path t)) = None \<and>
    symmetric_on (edges C) (set (heuristic_path t)) \<and>
    valid_on (edges C) (set (heuristic_path t)) \<and> heuristic_path t \<noteq> []"
  shows "\<exists>pf cf.
         mset pf = mset (heuristic_path t) \<and>
         improve (edges C) (fast t) pf (int (length pf)) = Inr (None, 0) \<and>
         pathCost (edges C) pf = Inr cf \<and>
         optimise C t
           = Some (Inr (pf, cf),
                   C\<lparr>routes := (routes C)(route_key (heuristic_path t) \<mapsto>
                                  \<lparr>saved_path = pf, saved_cost = cf\<rparr>)\<rparr>,
                   t\<lparr>heuristic_path := pf, heuristic_cost := cf\<rparr>)"
proof -
  from assms have n: "routes C (route_key (heuristic_path t)) = None"
    and sym: "symmetric_on (edges C) (set (heuristic_path t))"
    and v: "valid_on (edges C) (set (heuristic_path t))"
    and ne: "heuristic_path t \<noteq> []" by simp_all
  obtain pf where l: "optimise_loop (edges C) (fast t) (int (length (heuristic_path t)))
          (- 1, heuristic_path t) = Some (Inr pf)"
    and m: "mset pf = mset (heuristic_path t)"
    and opt: "improve (edges C) (fast t) pf (int (length pf)) = Inr (None, 0)"
    using optimise_loop_converges_valid [OF sym v, of "fast t"] by blast
  have v': "valid_on (edges C) (set pf)" using v m by (rule valid_on_mset)
  have ne': "pf \<noteq> []" using m ne by auto
  have c: "pathCost (edges C) pf = Inr (cyc (edges C) pf)" using v' ne' by (rule pathCost_cyc)
  have "twoopt_optimise C t
         = Some (Inr (),
                 C\<lparr>routes := (routes C)(route_key (heuristic_path t) \<mapsto>
                                  \<lparr>saved_path = pf, saved_cost = cyc (edges C) pf\<rparr>)\<rparr>,
                 t\<lparr>heuristic_path := pf, heuristic_cost := cyc (edges C) pf\<rparr>)"
    using l c by (rule twoopt_optimise_run)
  then have "optimise C t
           = Some (Inr (pf, cyc (edges C) pf),
                   C\<lparr>routes := (routes C)(route_key (heuristic_path t) \<mapsto>
                                  \<lparr>saved_path = pf, saved_cost = cyc (edges C) pf\<rparr>)\<rparr>,
                   t\<lparr>heuristic_path := pf, heuristic_cost := cyc (edges C) pf\<rparr>)"
    using n by (simp add: optimise_miss)
  then show ?thesis using m opt c by blast
qed

section \<open>The claims\<close>

text \<open>
  Claim C1, as amended. Over a matrix of exact integer costs that is symmetric and has an
  entry for every pair of nodes of the tour, a turn of the search loop that accepts a move (the scan returned a
  pair \<open>(n, m)\<close> with a negative change \<open>c\<close>, and the range \<open>[n + 1, m]\<close> was reversed) yields a
  tour whose \<open>pathCost\<close> is that of the old tour plus \<open>c\<close>, hence strictly less. A turn that
  accepts no move reports the change 0 and leaves the tour as it was: a pair whose delta
  is 0 is never accepted.
\<close>

theorem accepted_move_lowers_cost:
  "symmetric_on E (set tour) \<Longrightarrow> valid_on E (set tour) \<Longrightarrow>
   optimise_body E fm (int (length tour)) tour = Inr (c, tour') \<Longrightarrow>
   (c < 0 \<longrightarrow>
      (\<exists>n m. (n, m) \<in> set (candidates (int (length tour))) \<and> change E tour n m = Inr c \<and>
             tour' = swap tour (n + 1) m) \<and>
      (\<exists>a b. pathCost E tour = Inr a \<and> pathCost E tour' = Inr b \<and> b = a + c \<and> b < a)) \<and>
   (\<not> c < 0 \<longrightarrow> c = 0 \<and> tour' = tour)"
proof -
  assume sym: "symmetric_on E (set tour)" and v: "valid_on E (set tour)"
    and b: "optimise_body E fm (int (length tour)) tour = Inr (c, tour')"
  have keep: "\<not> c < 0 \<longrightarrow> c = 0 \<and> tour' = tour" using optimise_body_cases [OF b] by auto
  have acc: "c < 0 \<longrightarrow>
      (\<exists>n m. (n, m) \<in> set (candidates (int (length tour))) \<and> change E tour n m = Inr c \<and>
             tour' = swap tour (n + 1) m) \<and>
      (\<exists>a b. pathCost E tour = Inr a \<and> pathCost E tour' = Inr b \<and> b = a + c \<and> b < a)"
  proof
    assume c: "c < 0"
    then have mv: "\<exists>n m. (n, m) \<in> set (candidates (int (length tour))) \<and>
        change E tour n m = Inr c \<and> tour' = swap tour (n + 1) m"
      using optimise_body_cases [OF b] by auto
    then have "set (candidates (int (length tour))) \<noteq> {}" by auto
    then have ne: "tour \<noteq> []" by (auto simp: set_candidates)
    have m: "mset tour' = mset tour" and cy: "cyc E tour' = cyc E tour + c"
      using optimise_body_accept [OF sym b c] by simp_all
    have ne': "tour' \<noteq> []" using m ne by auto
    have v': "valid_on E (set tour')" using v m by (rule valid_on_mset)
    have "pathCost E tour = Inr (cyc E tour)" using v ne by (rule pathCost_cyc)
    moreover have "pathCost E tour' = Inr (cyc E tour')" using v' ne' by (rule pathCost_cyc)
    ultimately have "\<exists>a b. pathCost E tour = Inr a \<and> pathCost E tour' = Inr b \<and> b = a + c \<and> b < a"
      using cy c by simp
    then show "(\<exists>n m. (n, m) \<in> set (candidates (int (length tour))) \<and> change E tour n m = Inr c \<and>
             tour' = swap tour (n + 1) m) \<and>
      (\<exists>a b. pathCost E tour = Inr a \<and> pathCost E tour' = Inr b \<and> b = a + c \<and> b < a)"
      using mv by simp
  qed
  show ?thesis using acc keep by simp
qed

theorem accepted_move_lowers_cost_witness:
  "symmetric_on cross (set start) \<and> valid_on cross (set start) \<and>
   optimise_body cross False (int (length start)) start = Inr (- 2, [0, 1, 2, 3]) \<and>
   (\<exists>a b. pathCost cross start = Inr a \<and> pathCost cross [0, 1, 2, 3] = Inr b \<and> b = a + - 2 \<and> b < a)"
  using accepted_move_lowers_cost
    [OF symmetric_on_cross_start valid_on_cross_start cross_start_turn]
    symmetric_on_cross_start valid_on_cross_start cross_start_turn
  by simp

text \<open>
  The claim as stated fails over a matrix that is not symmetric: over \<open>asym\<close>, the turn on
  the tour \<open>[0, 2, 1, 3, 4]\<close> accepts a move with change \<open>-1\<close>, and the cost of the tour goes
  from 8 to 9.
\<close>

theorem accepted_move_raises_cost_asym:
  "optimise_body asym False (int (length [0 :: int, 2, 1, 3, 4])) [0, 2, 1, 3, 4]
     = Inr (- 1, [0, 3, 1, 2, 4]) \<and>
   pathCost asym [0, 2, 1, 3, 4] = Inr 8 \<and>
   pathCost asym [0, 3, 1, 2, 4] = Inr 9"
  by code_simp

text \<open>
  Claim C2, as amended. Over a matrix that is symmetric on the nodes of the tour, the search
  loop of \<open>_optimise\<close> leaves the loop after finitely many turns, from any tour and in both
  modes: it raises, or it ends with a tour in which a scan finds no improving pair (the
  state Terminated). So \<open>_optimise\<close> returns or raises. The loop has no bound on its turns.
\<close>

theorem optimise_terminates_symmetric:
  "symmetric_on (edges C) (set (heuristic_path t)) \<Longrightarrow>
   (\<exists>r. optimise_loop (edges C) (fast t) (int (length (heuristic_path t)))
          (- 1, heuristic_path t) = Some r \<and>
        (\<forall>p. r = Inr p \<longrightarrow> improve (edges C) (fast t) p (int (length p)) = Inr (None, 0))) \<and>
   (\<exists>r. twoopt_optimise C t = Some r)"
proof -
  assume sym: "symmetric_on (edges C) (set (heuristic_path t))"
  obtain r where r: "optimise_loop (edges C) (fast t) (int (length (heuristic_path t)))
          (- 1, heuristic_path t) = Some r"
    and opt: "\<forall>p. r = Inr p \<longrightarrow> improve (edges C) (fast t) p (int (length p)) = Inr (None, 0)"
    using optimise_loop_converges [OF sym, of "heuristic_path t" "- 1" "fast t"] by auto
  have "\<exists>r'. twoopt_optimise C t = Some r'"
  proof (cases r)
    case (Inl e)
    then show ?thesis using r by (simp add: twoopt_optimise_def)
  next
    case (Inr p)
    then show ?thesis using r
      by (cases "pathCost (edges C) p") (simp_all add: twoopt_optimise_def save_def)
  qed
  then show ?thesis using r opt by blast
qed

theorem optimise_terminates_symmetric_witness:
  "symmetric_on (edges doctest_class) (set (heuristic_path doctest_tsp)) \<and>
   (\<exists>r. optimise_loop (edges doctest_class) (fast doctest_tsp)
          (int (length (heuristic_path doctest_tsp))) (- 1, heuristic_path doctest_tsp) = Some r \<and>
        (\<forall>p. r = Inr p \<longrightarrow>
           improve (edges doctest_class) (fast doctest_tsp) p (int (length p)) = Inr (None, 0))) \<and>
   (\<exists>r. twoopt_optimise doctest_class doctest_tsp = Some r)"
proof -
  have s: "symmetric_on (edges doctest_class) (set (heuristic_path doctest_tsp))"
    using symmetric_on_cross_start by (simp add: doctest_class_def doctest_tsp_def)
  show ?thesis using optimise_terminates_symmetric [OF s] s by simp
qed

text \<open>
  The claim as stated fails over a matrix that is not symmetric: over \<open>asym\<close>, from the tour
  \<open>[0, 1, 2, 3, 4]\<close>, every turn accepts a move and the fourth turn gives the first tour
  again, so the loop never ends, in either mode.
\<close>

theorem optimise_loops_forever_asym:
  "optimise_loop asym False (int (length [0 :: int, 1, 2, 3, 4])) (- 1, [0, 1, 2, 3, 4]) = None \<and>
   optimise_loop asym True (int (length [0 :: int, 1, 2, 3, 4])) (- 1, [0, 1, 2, 3, 4]) = None \<and>
   twoopt_optimise \<lparr>edges = asym, routes = Map.empty\<rparr>
     \<lparr>nodes = [0, 1, 2, 3, 4], fast = False, initial_path = [0, 1, 2, 3, 4], initial_cost = 9,
      heuristic_path = [0, 1, 2, 3, 4], heuristic_cost = 9\<rparr> = None"
  by (simp add: asym_never_returns twoopt_optimise_def)

text \<open>
  Claim C3. For a tour whose nodes all have entries in the matrix, one scan by \<open>_improve\<close>
  in fast mode returns the first candidate pair, in the order of the scan, whose delta is
  negative, with that delta; in the other mode it returns a candidate pair whose delta is
  negative and is the least delta of all candidate pairs. In both modes it returns no pair
  (and the change 0) when no candidate pair has a negative delta.
\<close>

theorem improve_mode_policy:
  "valid_on E (set tour) \<Longrightarrow>
   improve E True tour (int (length tour))
     = Inr (case find (\<lambda>c. delta E tour c < 0) (candidates (int (length tour))) of
              None \<Rightarrow> (None, 0)
            | Some c \<Rightarrow> (Some c, delta E tour c)) \<and>
   (\<exists>saved best.
      improve E False tour (int (length tour)) = Inr (saved, best) \<and>
      (case saved of
         None \<Rightarrow> best = 0
       | Some c \<Rightarrow> c \<in> set (candidates (int (length tour))) \<and> best = delta E tour c \<and> best < 0) \<and>
      (\<forall>c\<in>set (candidates (int (length tour))). best \<le> delta E tour c)) \<and>
   ((\<forall>c\<in>set (candidates (int (length tour))). 0 \<le> delta E tour c) \<longrightarrow>
      improve E fm tour (int (length tour)) = Inr (None, 0))"
proof -
  assume v: "valid_on E (set tour)"
  let ?cs = "candidates (int (length tour))"
  let ?r = "foldl (pick E tour) (None, 0) ?cs"
  have fast: "improve E True tour (int (length tour))
     = Inr (case find (\<lambda>c. delta E tour c < 0) ?cs of
              None \<Rightarrow> (None, 0)
            | Some c \<Rightarrow> (Some c, delta E tour c))"
    using v by (rule improve_fast)
  have full: "improve E False tour (int (length tour)) = Inr ?r"
    using v by (rule improve_full)
  have le: "\<forall>c\<in>set ?cs. snd ?r \<le> delta E tour c"
    using foldl_pick_le [of E tour "(None, 0)" ?cs] by simp
  have cases: "?r = (None, 0) \<or> (\<exists>c\<in>set ?cs. ?r = (Some c, delta E tour c) \<and> delta E tour c < 0)"
    using foldl_pick_cases [of E tour "(None, 0)" ?cs] by simp
  have best: "case fst ?r of
         None \<Rightarrow> snd ?r = 0
       | Some c \<Rightarrow> c \<in> set ?cs \<and> snd ?r = delta E tour c \<and> snd ?r < 0"
    using cases by auto
  have ex: "\<exists>saved best.
      improve E False tour (int (length tour)) = Inr (saved, best) \<and>
      (case saved of
         None \<Rightarrow> best = 0
       | Some c \<Rightarrow> c \<in> set ?cs \<and> best = delta E tour c \<and> best < 0) \<and>
      (\<forall>c\<in>set ?cs. best \<le> delta E tour c)"
    using full best le by (intro exI [of _ "fst ?r"] exI [of _ "snd ?r"]) simp
  have none: "(\<forall>c\<in>set ?cs. 0 \<le> delta E tour c) \<longrightarrow> improve E fm tour (int (length tour)) = Inr (None, 0)"
  proof
    assume a: "\<forall>c\<in>set ?cs. 0 \<le> delta E tour c"
    then have "find (\<lambda>c. delta E tour c < 0) ?cs = None" by (auto simp: find_None_iff)
    then have f: "improve E True tour (int (length tour)) = Inr (None, 0)" using fast by simp
    have "?r = (None, 0)" using cases a by fastforce
    then have "improve E False tour (int (length tour)) = Inr (None, 0)" using full by simp
    then show "improve E fm tour (int (length tour)) = Inr (None, 0)" using f by (cases fm) simp_all
  qed
  show ?thesis using fast ex none by blast
qed

theorem improve_mode_policy_witness:
  "valid_on cross (set start) \<and>
   improve cross True start (int (length start)) = Inr (Some (0, 2), - 2) \<and>
   improve cross False start (int (length start)) = Inr (Some (0, 2), - 2)"
proof -
  have v: "valid_on cross (set start)" by (rule valid_on_cross_start)
  have c: "candidates (int (length start)) = [(0, 2)]" by code_simp
  have d: "delta cross start (0, 2) = - 2"
    by (simp add: delta_def start_def cross_def dist_def dtot_def getitem_def)
  have f: "improve cross False start (int (length start)) = Inr (Some (0, 2), - 2)"
    by (simp add: improve_full [OF v] c pick_def d)
  show ?thesis using improve_mode_policy [OF v, of True] v c d f by simp
qed

text \<open>
  Claim C4. For a tour of length \<open>S\<close> whose nodes all have entries in the matrix, the full
  scan by \<open>_improve\<close> is the comparison of the loop body folded over the candidate pairs;
  these are exactly the pairs \<open>(n, m)\<close> with \<open>0 \<le> n \<le> S - 3\<close> and \<open>n + 2 \<le> m \<le> S - 2\<close>, each
  once; and the change computed for a pair is
  \<open>dist(tour[n], tour[m]) + dist(tour[n+1], tour[m+1]) - dist(tour[n], tour[n+1]) -
  dist(tour[m], tour[m+1])\<close>.
\<close>

theorem improve_candidate_space:
  "valid_on E (set tour) \<Longrightarrow>
   improve E False tour (int (length tour))
     = Inr (foldl (pick E tour) (None, 0) (candidates (int (length tour)))) \<and>
   set (candidates (int (length tour)))
     = {(n, m). 0 \<le> n \<and> n \<le> int (length tour) - 3 \<and> n + 2 \<le> m \<and> m \<le> int (length tour) - 2} \<and>
   distinct (candidates (int (length tour))) \<and>
   (\<forall>(n, m)\<in>set (candidates (int (length tour))).
      change E tour n m
        = Inr (dtot E (tour ! nat n) (tour ! nat m)
               + dtot E (tour ! nat (n + 1)) (tour ! nat (m + 1))
               - dtot E (tour ! nat n) (tour ! nat (n + 1))
               - dtot E (tour ! nat m) (tour ! nat (m + 1))))"
proof -
  assume v: "valid_on E (set tour)"
  have "\<forall>(n, m)\<in>set (candidates (int (length tour))).
      change E tour n m
        = Inr (dtot E (tour ! nat n) (tour ! nat m)
               + dtot E (tour ! nat (n + 1)) (tour ! nat (m + 1))
               - dtot E (tour ! nat n) (tour ! nat (n + 1))
               - dtot E (tour ! nat m) (tour ! nat (m + 1)))"
  proof (clarify)
    fix n m
    assume "(n, m) \<in> set (candidates (int (length tour)))"
    then show "change E tour n m
        = Inr (dtot E (tour ! nat n) (tour ! nat m)
               + dtot E (tour ! nat (n + 1)) (tour ! nat (m + 1))
               - dtot E (tour ! nat n) (tour ! nat (n + 1))
               - dtot E (tour ! nat m) (tour ! nat (m + 1)))"
      using candidates_change_total [OF v, of "(n, m)"] by (simp add: delta_def)
  qed
  then show ?thesis
    using improve_full [OF v] set_candidates [of "int (length tour)"]
      distinct_candidates [of "int (length tour)"]
    by simp
qed

theorem improve_candidate_space_witness:
  "valid_on cross (set [0, 1, 2, 3, 0]) \<and>
   candidates (int (length [0 :: int, 1, 2, 3, 0])) = [(0, 2), (0, 3), (1, 3)] \<and>
   improve cross False [0, 1, 2, 3, 0] (int (length [0 :: int, 1, 2, 3, 0])) = Inr (None, 0)"
proof -
  have v: "valid_on cross (set [0, 1, 2, 3, 0])"
    by (simp add: valid_on_def cross_def dist_def dtot_def getitem_def)
  have c: "candidates (int (length [0 :: int, 1, 2, 3, 0])) = [(0, 2), (0, 3), (1, 3)]"
    by code_simp
  have d: "delta cross [0, 1, 2, 3, 0] (0, 2) = 2" "delta cross [0, 1, 2, 3, 0] (0, 3) = 0"
    "delta cross [0, 1, 2, 3, 0] (1, 3) = 2"
    by (simp_all add: delta_def cross_def dist_def dtot_def getitem_def)
  show ?thesis
    using improve_candidate_space [OF v] v c d by (simp add: pick_def)
qed

text \<open>
  Claim C5. For a list \<open>tour\<close> and positions \<open>i \<le> j < length tour\<close>, \<open>swap tour i j\<close> is a
  list of the same length whose positions \<open>i .. j\<close> hold the elements of \<open>tour\<close> at \<open>i .. j\<close>
  in reverse order, and whose other positions hold what \<open>tour\<close> holds there. \<open>swap\<close> is a
  function of its arguments: it builds a new list and \<open>tour\<close> is untouched. The two
  examples of the docstring evaluate as given.
\<close>

theorem swap_reverses_range:
  "i \<le> j \<Longrightarrow> j < length tour \<Longrightarrow>
   length (swap tour (int i) (int j)) = length tour \<and>
   (\<forall>k < length tour.
      swap tour (int i) (int j) ! k = (if i \<le> k \<and> k \<le> j then tour ! (i + j - k) else tour ! k)) \<and>
   swap [1, 2, 3, 4, 5 :: int] 1 2 = [1, 3, 2, 4, 5] \<and>
   swap [1, 2, 3, 4, 5 :: int] 0 3 = [4, 3, 2, 1, 5]"
proof -
  assume a: "i \<le> j" "j < length tour"
  have "swap [1, 2, 3, 4, 5 :: int] 1 2 = [1, 3, 2, 4, 5]" by code_simp
  moreover have "swap [1, 2, 3, 4, 5 :: int] 0 3 = [4, 3, 2, 1, 5]" by code_simp
  moreover have "length (swap tour (int i) (int j)) = length tour"
    using a by (simp add: swap_length)
  ultimately show ?thesis using a by (simp add: swap_nth)
qed

theorem swap_reverses_range_witness:
  "(1 :: nat) \<le> 3 \<and> (3 :: nat) < length [10, 20, 30, 40, 50 :: int] \<and>
   length (swap [10, 20, 30, 40, 50 :: int] (int 1) (int 3)) = 5 \<and>
   swap [10, 20, 30, 40, 50 :: int] (int 1) (int 3) ! 1 = 40 \<and>
   swap [10, 20, 30, 40, 50 :: int] (int 1) (int 3) ! 4 = 50"
  using swap_reverses_range [of 1 3 "[10, 20, 30, 40, 50 :: int]"] by simp

text \<open>
  Claim C6. For a non-empty tour whose nodes all have entries in the matrix, \<open>pathCost\<close>
  returns the sum of the costs between neighbours in tour order plus the cost of the
  closing edge from the last node to the first. For the tour \<open>[0, 1, 2, 3]\<close> over the
  matrix \<open>cross\<close> this is 8 (the three edges between neighbours alone cost 6).
\<close>

theorem pathCost_closes_cycle:
  "path \<noteq> [] \<Longrightarrow> valid_on E (set path) \<Longrightarrow>
   pathCost E path
     = Inr ((\<Sum>i = 1 ..< length path. dtot E (path ! (i - 1)) (path ! i))
            + dtot E (last path) (hd path)) \<and>
   pathCost [[0, 2, 3, 2], [2, 0, 2, 3], [3, 2, 0, 2], [2, 3, 2, 0]] [0, 1, 2, 3] = Inr 8 \<and>
   (\<Sum>i = 1 ..< length [0 :: int, 1, 2, 3]. dtot cross ([0, 1, 2, 3] ! (i - 1)) ([0, 1, 2, 3] ! i)) = 6"
proof -
  assume a: "path \<noteq> []" "valid_on E (set path)"
  have "pathCost E path = Inr (cyc E path)" using a by (simp add: pathCost_cyc)
  moreover have "cyc E path
      = (\<Sum>i = 1 ..< length path. dtot E (path ! (i - 1)) (path ! i)) + dtot E (last path) (hd path)"
    by (simp add: cyc_def path_len_sum interv_sum_list_conv_sum_set_nat)
  moreover have "pathCost [[0, 2, 3, 2], [2, 0, 2, 3], [3, 2, 0, 2], [2, 3, 2, 0]] [0, 1, 2, 3] = Inr 8"
    by code_simp
  moreover have "(\<Sum>i = 1 ..< length [0 :: int, 1, 2, 3].
      dtot cross ([0, 1, 2, 3] ! (i - 1)) ([0, 1, 2, 3] ! i)) = 6"
    by code_simp
  ultimately show ?thesis by simp
qed

theorem pathCost_closes_cycle_witness:
  "start \<noteq> [] \<and> valid_on cross (set start) \<and> pathCost cross start = Inr 10"
proof -
  have v: "valid_on cross (set start)"
    by (simp add: start_def valid_on_def cross_def dist_def dtot_def getitem_def)
  have n: "start \<noteq> []" by (simp add: start_def)
  have "dtot cross 3 0 = 2" "dtot cross 0 2 = 3" "dtot cross 2 1 = 2" "dtot cross 1 3 = 3"
    by (simp_all add: cross_def dist_def dtot_def getitem_def)
  then show ?thesis
    using pathCost_closes_cycle [OF n v] n v
    by (simp add: start_def sum.atLeast_Suc_lessThan)
qed

text \<open>
  Claim C7, as amended. The key that \<open>optimise\<close> looks up is \<open>str(sorted(heuristic_path))\<close>:
  two tours have the same key exactly when they are orderings of the same nodes. When the
  key is in the route cache, \<open>optimise\<close> takes the cached path and cost into the instance and
  returns them, whatever the search engine would do, and leaves the cache as it is. When it
  is not, the outcome of \<open>optimise\<close> is that of \<open>_optimise\<close>. For a non-empty tour over a matrix
  that is symmetric and has an entry for every pair of the tour's nodes, the engine
  converges: \<open>optimise\<close> returns a rearrangement of the tour in which a scan finds no
  improving pair, with its cost, and has stored both in the instance and in the cache under
  the key that was looked up. Whenever the search loop ends with a tour and its cost, these
  are what is stored and returned, and a later \<open>optimise\<close> on any ordering of the same nodes
  finds them in the cache. Whenever \<open>optimise\<close> returns, it returns the \<open>heuristic_path\<close> and
  \<open>heuristic_cost\<close> of the instance.
\<close>

theorem optimise_uses_cache:
  "(route_key p = route_key q \<longleftrightarrow> mset p = mset q) \<and>
   (routes Ch (route_key (heuristic_path th)) = Some s \<longrightarrow>
      optimise Ch th
        = Some (Inr (saved_path s, saved_cost s), Ch,
                th\<lparr>heuristic_path := saved_path s, heuristic_cost := saved_cost s\<rparr>)) \<and>
   (routes C (route_key (heuristic_path t)) = None \<longrightarrow>
      optimise C t
        = (case twoopt_optimise C t of
             None \<Rightarrow> None
           | Some (Inl e, C', t') \<Rightarrow> Some (Inl e, C', t')
           | Some (Inr u, C', t') \<Rightarrow> Some (Inr (heuristic_path t', heuristic_cost t'), C', t'))) \<and>
   (routes C (route_key (heuristic_path t)) = None \<and>
    optimise_loop (edges C) (fast t) (int (length (heuristic_path t))) (- 1, heuristic_path t)
      = Some (Inr p') \<and>
    pathCost (edges C) p' = Inr c \<longrightarrow>
      optimise C t
        = Some (Inr (p', c),
                C\<lparr>routes := (routes C)(route_key (heuristic_path t) \<mapsto>
                                  \<lparr>saved_path = p', saved_cost = c\<rparr>)\<rparr>,
                t\<lparr>heuristic_path := p', heuristic_cost := c\<rparr>) \<and>
      (mset (heuristic_path t2) = mset (heuristic_path t) \<longrightarrow>
         optimise (C\<lparr>routes := (routes C)(route_key (heuristic_path t) \<mapsto>
                                  \<lparr>saved_path = p', saved_cost = c\<rparr>)\<rparr>) t2
           = Some (Inr (p', c),
                   C\<lparr>routes := (routes C)(route_key (heuristic_path t) \<mapsto>
                                  \<lparr>saved_path = p', saved_cost = c\<rparr>)\<rparr>,
                   t2\<lparr>heuristic_path := p', heuristic_cost := c\<rparr>))) \<and>
   (routes C (route_key (heuristic_path t)) = None \<and>
    symmetric_on (edges C) (set (heuristic_path t)) \<and>
    valid_on (edges C) (set (heuristic_path t)) \<and> heuristic_path t \<noteq> [] \<longrightarrow>
      (\<exists>pf cf.
         mset pf = mset (heuristic_path t) \<and>
         improve (edges C) (fast t) pf (int (length pf)) = Inr (None, 0) \<and>
         pathCost (edges C) pf = Inr cf \<and>
         optimise C t
           = Some (Inr (pf, cf),
                   C\<lparr>routes := (routes C)(route_key (heuristic_path t) \<mapsto>
                                  \<lparr>saved_path = pf, saved_cost = cf\<rparr>)\<rparr>,
                   t\<lparr>heuristic_path := pf, heuristic_cost := cf\<rparr>))) \<and>
   (optimise C t = Some (Inr (p'', c''), C'', t'') \<longrightarrow>
      heuristic_path t'' = p'' \<and> heuristic_cost t'' = c'')"
proof (intro conjI impI)
  show "route_key p = route_key q \<longleftrightarrow> mset p = mset q" by (rule route_key_iff)
next
  assume "routes Ch (route_key (heuristic_path th)) = Some s"
  then show "optimise Ch th
        = Some (Inr (saved_path s, saved_cost s), Ch,
                th\<lparr>heuristic_path := saved_path s, heuristic_cost := saved_cost s\<rparr>)"
    by (rule optimise_hit)
next
  assume "routes C (route_key (heuristic_path t)) = None"
  then show "optimise C t
        = (case twoopt_optimise C t of
             None \<Rightarrow> None
           | Some (Inl e, C', t') \<Rightarrow> Some (Inl e, C', t')
           | Some (Inr u, C', t') \<Rightarrow> Some (Inr (heuristic_path t', heuristic_cost t'), C', t'))"
    by (rule optimise_miss)
next
  assume a: "routes C (route_key (heuristic_path t)) = None \<and>
    optimise_loop (edges C) (fast t) (int (length (heuristic_path t))) (- 1, heuristic_path t)
      = Some (Inr p') \<and>
    pathCost (edges C) p' = Inr c"
  then have "twoopt_optimise C t
         = Some (Inr (),
                 C\<lparr>routes := (routes C)(route_key (heuristic_path t) \<mapsto>
                                  \<lparr>saved_path = p', saved_cost = c\<rparr>)\<rparr>,
                 t\<lparr>heuristic_path := p', heuristic_cost := c\<rparr>)"
    by (simp add: twoopt_optimise_run)
  then show "optimise C t
        = Some (Inr (p', c),
                C\<lparr>routes := (routes C)(route_key (heuristic_path t) \<mapsto>
                                  \<lparr>saved_path = p', saved_cost = c\<rparr>)\<rparr>,
                t\<lparr>heuristic_path := p', heuristic_cost := c\<rparr>)"
    using a by (simp add: optimise_miss)
next
  assume "mset (heuristic_path t2) = mset (heuristic_path t)"
  then have "route_key (heuristic_path t2) = route_key (heuristic_path t)"
    by (rule route_key_mset)
  then have "routes (C\<lparr>routes := (routes C)(route_key (heuristic_path t) \<mapsto>
                                  \<lparr>saved_path = p', saved_cost = c\<rparr>)\<rparr>)
               (route_key (heuristic_path t2))
             = Some \<lparr>saved_path = p', saved_cost = c\<rparr>"
    by simp
  then show "optimise (C\<lparr>routes := (routes C)(route_key (heuristic_path t) \<mapsto>
                                  \<lparr>saved_path = p', saved_cost = c\<rparr>)\<rparr>) t2
           = Some (Inr (p', c),
                   C\<lparr>routes := (routes C)(route_key (heuristic_path t) \<mapsto>
                                  \<lparr>saved_path = p', saved_cost = c\<rparr>)\<rparr>,
                   t2\<lparr>heuristic_path := p', heuristic_cost := c\<rparr>)"
    using optimise_hit
      [of "C\<lparr>routes := (routes C)(route_key (heuristic_path t) \<mapsto>
                                  \<lparr>saved_path = p', saved_cost = c\<rparr>)\<rparr>" t2
          "\<lparr>saved_path = p', saved_cost = c\<rparr>"]
    by simp
next
  assume "routes C (route_key (heuristic_path t)) = None \<and>
    symmetric_on (edges C) (set (heuristic_path t)) \<and>
    valid_on (edges C) (set (heuristic_path t)) \<and> heuristic_path t \<noteq> []"
  then show "\<exists>pf cf.
         mset pf = mset (heuristic_path t) \<and>
         improve (edges C) (fast t) pf (int (length pf)) = Inr (None, 0) \<and>
         pathCost (edges C) pf = Inr cf \<and>
         optimise C t
           = Some (Inr (pf, cf),
                   C\<lparr>routes := (routes C)(route_key (heuristic_path t) \<mapsto>
                                  \<lparr>saved_path = pf, saved_cost = cf\<rparr>)\<rparr>,
                   t\<lparr>heuristic_path := pf, heuristic_cost := cf\<rparr>)"
    by (rule optimise_miss_converges)
next
  assume "optimise C t = Some (Inr (p'', c''), C'', t'')"
  then show "heuristic_path t'' = p''" by (simp add: optimise_returns_state)
next
  assume "optimise C t = Some (Inr (p'', c''), C'', t'')"
  then show "heuristic_cost t'' = c''" by (simp add: optimise_returns_state)
qed


theorem optimise_uses_cache_witness:
  "mset start = mset [0 :: int, 1, 2, 3] \<and>
   route_key start = route_key [0, 1, 2, 3] \<and>
   routes doctest_class (route_key (heuristic_path doctest_tsp)) = None \<and>
   symmetric_on (edges doctest_class) (set (heuristic_path doctest_tsp)) \<and>
   valid_on (edges doctest_class) (set (heuristic_path doctest_tsp)) \<and>
   heuristic_path doctest_tsp \<noteq> [] \<and>
   (\<exists>pf cf. mset pf = mset (heuristic_path doctest_tsp) \<and>
      improve (edges doctest_class) (fast doctest_tsp) pf (int (length pf)) = Inr (None, 0) \<and>
      pathCost (edges doctest_class) pf = Inr cf \<and>
      optimise doctest_class doctest_tsp
        = Some (Inr (pf, cf),
                doctest_class\<lparr>routes := (routes doctest_class)(route_key (heuristic_path doctest_tsp) \<mapsto>
                                  \<lparr>saved_path = pf, saved_cost = cf\<rparr>)\<rparr>,
                doctest_tsp\<lparr>heuristic_path := pf, heuristic_cost := cf\<rparr>)) \<and>
   optimise doctest_class doctest_tsp
     = Some (Inr ([0, 1, 2, 3], 8),
             doctest_class\<lparr>routes := (routes doctest_class)(route_key start \<mapsto>
                                  \<lparr>saved_path = [0, 1, 2, 3], saved_cost = 8\<rparr>)\<rparr>,
             doctest_tsp\<lparr>heuristic_path := [0, 1, 2, 3], heuristic_cost := 8\<rparr>) \<and>
   optimise (doctest_class\<lparr>routes := (routes doctest_class)(route_key start \<mapsto>
                                  \<lparr>saved_path = [0, 1, 2, 3], saved_cost = 8\<rparr>)\<rparr>)
       (doctest_tsp\<lparr>heuristic_path := [3, 2, 1, 0]\<rparr>)
     = Some (Inr ([0, 1, 2, 3], 8),
             doctest_class\<lparr>routes := (routes doctest_class)(route_key start \<mapsto>
                                  \<lparr>saved_path = [0, 1, 2, 3], saved_cost = 8\<rparr>)\<rparr>,
             doctest_tsp\<lparr>heuristic_path := [0, 1, 2, 3], heuristic_cost := 8\<rparr>)"
proof -
  let ?C1 = "doctest_class\<lparr>routes := (routes doctest_class)(route_key start \<mapsto>
                                  \<lparr>saved_path = [0, 1, 2, 3], saved_cost = 8\<rparr>)\<rparr>"
  let ?t2 = "doctest_tsp\<lparr>heuristic_path := [3, 2, 1, 0]\<rparr>"
  have hp: "heuristic_path doctest_tsp = start" by (simp add: doctest_tsp_def)
  have m: "mset start = mset [0 :: int, 1, 2, 3]" by (simp add: start_def)
  have m2: "mset (heuristic_path ?t2) = mset (heuristic_path doctest_tsp)"
    by (simp add: doctest_tsp_def start_def)
  have n: "routes doctest_class (route_key (heuristic_path doctest_tsp)) = None"
    by (simp add: doctest_class_def)
  have k2: "route_key (heuristic_path ?t2) = route_key start"
    using m2 hp route_key_mset by metis
  have h: "routes ?C1 (route_key (heuristic_path ?t2))
           = Some \<lparr>saved_path = [0, 1, 2, 3], saved_cost = 8\<rparr>"
    by (simp only: k2) simp
  note inst = optimise_uses_cache
    [of start "[0, 1, 2, 3]" ?C1 ?t2 "\<lparr>saved_path = [0, 1, 2, 3], saved_cost = 8\<rparr>"
        doctest_class doctest_tsp "[0, 1, 2, 3]" 8 ?t2 "[0, 1, 2, 3]" 8 ?C1
        "doctest_tsp\<lparr>heuristic_path := [0, 1, 2, 3], heuristic_cost := 8\<rparr>"]
  have a: "route_key start = route_key [0, 1, 2, 3]" using inst m by blast
  have b: "optimise doctest_class doctest_tsp
     = Some (Inr ([0, 1, 2, 3], 8), ?C1,
             doctest_tsp\<lparr>heuristic_path := [0, 1, 2, 3], heuristic_cost := 8\<rparr>)"
    using inst [THEN conjunct2, THEN conjunct2, THEN conjunct2, THEN conjunct1, THEN mp,
        OF conjI [OF n conjI [OF doctest_loop doctest_cost]], THEN conjunct1]
    by (simp add: hp)
  have c: "optimise ?C1 ?t2
     = Some (Inr ([0, 1, 2, 3], 8), ?C1,
             ?t2\<lparr>heuristic_path := [0, 1, 2, 3], heuristic_cost := 8\<rparr>)"
    using inst [THEN conjunct2, THEN conjunct1, THEN mp, OF h] by simp
  have sy: "symmetric_on (edges doctest_class) (set (heuristic_path doctest_tsp))"
    using symmetric_on_cross_start by (simp add: doctest_class_def doctest_tsp_def)
  have va: "valid_on (edges doctest_class) (set (heuristic_path doctest_tsp))"
    using valid_on_cross_start by (simp add: doctest_class_def doctest_tsp_def)
  have ne: "heuristic_path doctest_tsp \<noteq> []" by (simp add: doctest_tsp_def start_def)
  note d = inst [THEN conjunct2, THEN conjunct2, THEN conjunct2, THEN conjunct2, THEN conjunct1,
        THEN mp, OF conjI [OF n conjI [OF sy conjI [OF va ne]]]]
  show ?thesis by (intro conjI m a n sy va ne d b c [simplified])
qed

text \<open>
  The claim as stated fails over a matrix that is not symmetric: over \<open>asym\<close>, with an empty
  route cache and the tour \<open>[0, 1, 2, 3, 4]\<close>, the key is not in the cache, the engine never
  converges, and \<open>optimise\<close> returns nothing.
\<close>

theorem optimise_never_returns_asym:
  "routes \<lparr>edges = asym, routes = Map.empty\<rparr> (route_key [0, 1, 2, 3, 4]) = None \<and>
   optimise \<lparr>edges = asym, routes = Map.empty\<rparr>
     \<lparr>nodes = [0, 1, 2, 3, 4], fast = False, initial_path = [0, 1, 2, 3, 4], initial_cost = 9,
      heuristic_path = [0, 1, 2, 3, 4], heuristic_cost = 9\<rparr> = None"
  by (simp add: optimise_def twoopt_optimise_def asym_never_returns)

text \<open>
  Claim C8. \<open>update(nodeSubset)\<close> sets \<open>heuristic_path\<close> to the nodes of \<open>initial_path\<close> that
  are in \<open>nodeSubset\<close>, in the order of \<open>initial_path\<close>, and, when \<open>pathCost\<close> of that path
  returns, sets \<open>heuristic_cost\<close> to it; nothing else of the instance changes, and no search
  is run (the route cache is not an argument of the method's result). With \<open>initial_path\<close>
  \<open>[0, 1, ..., 12]\<close>, \<open>update([2, ..., 12])\<close> gives the \<open>heuristic_path\<close> \<open>[2, 3, ..., 12]\<close>.
\<close>

theorem update_projects_initial_path:
  "heuristic_path (snd (update C t solution))
     = filter (\<lambda>i. i \<in> set solution) (initial_path t) \<and>
   update C t solution
     = (case pathCost (edges C) (filter (\<lambda>i. i \<in> set solution) (initial_path t)) of
          Inl e \<Rightarrow> (Inl e, t\<lparr>heuristic_path := filter (\<lambda>i. i \<in> set solution) (initial_path t)\<rparr>)
        | Inr c \<Rightarrow> (Inr (), t\<lparr>heuristic_path := filter (\<lambda>i. i \<in> set solution) (initial_path t),
                              heuristic_cost := c\<rparr>)) \<and>
   heuristic_path
     (snd (update C (t\<lparr>initial_path := [0, 1, 2, 3, 4, 5, 6, 7, 8, 9, 10, 11, 12]\<rparr>)
        [2, 3, 4, 5, 6, 7, 8, 9, 10, 11, 12]))
     = [2, 3, 4, 5, 6, 7, 8, 9, 10, 11, 12]"
proof -
  have "heuristic_path
     (snd (update C (t\<lparr>initial_path := [0, 1, 2, 3, 4, 5, 6, 7, 8, 9, 10, 11, 12]\<rparr>)
        [2, 3, 4, 5, 6, 7, 8, 9, 10, 11, 12]))
     = [2, 3, 4, 5, 6, 7, 8, 9, 10, 11, 12]"
    by (simp add: update_path)
  then show ?thesis using update_path [of C t solution] update_eq [of C t solution] by simp
qed

text \<open>
  Claim C9, as amended. \<open>pathCost\<close> of an empty tour raises \<open>IndexError\<close> (so does the
  constructor on an empty node list); it does not return 0. When \<open>_optimise\<close> or \<open>optimise\<close>
  raises, the instance and the route cache are as they were before the call. When
  \<open>update\<close> raises, \<open>heuristic_cost\<close> and every other field but \<open>heuristic_path\<close> are as they
  were, and \<open>heuristic_path\<close> already holds the projected path; when the projected path is
  empty, \<open>update\<close> raises \<open>IndexError\<close> and \<open>heuristic_path\<close> is the empty list.
\<close>

theorem failures_surface:
  "pathCost E [] = Inl IndexError \<and> init E [] f = Inl IndexError \<and>
   (fst (update Cu tu solution) = Inl e \<longrightarrow>
      heuristic_cost (snd (update Cu tu solution)) = heuristic_cost tu \<and>
      snd (update Cu tu solution)
        = tu\<lparr>heuristic_path := filter (\<lambda>i. i \<in> set solution) (initial_path tu)\<rparr>) \<and>
   (filter (\<lambda>i. i \<in> set solution) (initial_path tu) = [] \<longrightarrow>
      update Cu tu solution = (Inl IndexError, tu\<lparr>heuristic_path := []\<rparr>)) \<and>
   (twoopt_optimise C t = Some (Inl e', C', t') \<longrightarrow> C' = C \<and> t' = t) \<and>
   (optimise C t = Some (Inl e'', C'', t'') \<longrightarrow> C'' = C \<and> t'' = t)"
proof (intro conjI impI)
  show "pathCost E [] = Inl IndexError" by (rule pathCost_empty)
next
  show "init E [] f = Inl IndexError" by (rule init_empty)
next
  assume "fst (update Cu tu solution) = Inl e"
  then show "heuristic_cost (snd (update Cu tu solution)) = heuristic_cost tu"
    by (simp add: update_eq split: sum.splits)
next
  assume "fst (update Cu tu solution) = Inl e"
  then show "snd (update Cu tu solution)
        = tu\<lparr>heuristic_path := filter (\<lambda>i. i \<in> set solution) (initial_path tu)\<rparr>"
    by (simp add: update_eq split: sum.splits)
next
  assume "filter (\<lambda>i. i \<in> set solution) (initial_path tu) = []"
  then show "update Cu tu solution = (Inl IndexError, tu\<lparr>heuristic_path := []\<rparr>)"
    by (simp add: update_eq pathCost_empty)
next
  assume "twoopt_optimise C t = Some (Inl e', C', t')"
  then show "C' = C" by (simp add: twoopt_optimise_raises)
next
  assume "twoopt_optimise C t = Some (Inl e', C', t')"
  then show "t' = t" by (simp add: twoopt_optimise_raises)
next
  assume "optimise C t = Some (Inl e'', C'', t'')"
  then show "C'' = C" by (simp add: optimise_raises)
next
  assume "optimise C t = Some (Inl e'', C'', t'')"
  then show "t'' = t" by (simp add: optimise_raises)
qed

theorem failures_surface_witness:
  "fst (update doctest_class doctest_tsp []) = Inl IndexError \<and>
   filter (\<lambda>i. i \<in> set []) (initial_path doctest_tsp) = [] \<and>
   update doctest_class doctest_tsp [] = (Inl IndexError, doctest_tsp\<lparr>heuristic_path := []\<rparr>) \<and>
   heuristic_cost (snd (update doctest_class doctest_tsp [])) = 10 \<and>
   twoopt_optimise doctest_class (doctest_tsp\<lparr>heuristic_path := []\<rparr>)
     = Some (Inl IndexError, doctest_class, doctest_tsp\<lparr>heuristic_path := []\<rparr>) \<and>
   optimise doctest_class (doctest_tsp\<lparr>heuristic_path := []\<rparr>)
     = Some (Inl IndexError, doctest_class, doctest_tsp\<lparr>heuristic_path := []\<rparr>)"
proof -
  let ?t = "doctest_tsp\<lparr>heuristic_path := []\<rparr>"
  have f: "filter (\<lambda>i. i \<in> set []) (initial_path doctest_tsp) = []" by simp
  have u: "update doctest_class doctest_tsp [] = (Inl IndexError, ?t)"
    by (simp add: update_eq pathCost_empty)
  have c: "heuristic_cost doctest_tsp = 10" by (simp add: doctest_tsp_def)
  have o: "optimise doctest_class ?t = Some (Inl IndexError, doctest_class, ?t)"
    by (simp add: optimise_miss doctest_class_def empty_tour_raises [unfolded doctest_class_def])
  show ?thesis
    using failures_surface
      [of cross False doctest_class doctest_tsp "[]" IndexError doctest_class ?t
          IndexError doctest_class ?t IndexError doctest_class ?t]
      f u c o empty_tour_raises
    by simp
qed

text \<open>
  The claim as stated fails for \<open>update\<close>: on the instance of the docstring, \<open>update([])\<close>
  raises \<open>IndexError\<close>, and the \<open>heuristic_path\<close>, which was \<open>[0, 2, 1, 3]\<close>, is the empty list
  after the call.
\<close>

theorem update_failure_changes_path:
  "fst (update doctest_class doctest_tsp []) = Inl IndexError \<and>
   heuristic_path doctest_tsp = [0, 2, 1, 3] \<and>
   heuristic_path (snd (update doctest_class doctest_tsp [])) = []"
  by (simp add: update_eq pathCost_empty doctest_tsp_def start_def)

text \<open>
  Claim C10. For positions \<open>i \<le> j < length path\<close>, \<open>swap path i j\<close> has the elements of
  \<open>path\<close> with their multiplicities, and its length. When \<open>_optimise\<close> returns, the tour it
  saved, in the instance and in the route cache, is a rearrangement of the
  \<open>heuristic_path\<close> it started from, whatever the number of accepted moves.
\<close>

theorem swap_and_search_rearrange:
  "(i \<le> j \<and> j < length path \<longrightarrow>
      mset (swap path (int i) (int j)) = mset path \<and>
      length (swap path (int i) (int j)) = length path) \<and>
   (twoopt_optimise C t = Some (Inr u, C', t') \<longrightarrow>
      mset (heuristic_path t') = mset (heuristic_path t) \<and>
      length (heuristic_path t') = length (heuristic_path t) \<and>
      (\<exists>c. routes C' (route_key (heuristic_path t))
             = Some \<lparr>saved_path = heuristic_path t', saved_cost = c\<rparr>))"
proof -
  have sw: "i \<le> j \<and> j < length path \<longrightarrow>
      mset (swap path (int i) (int j)) = mset path \<and>
      length (swap path (int i) (int j)) = length path"
    by (simp add: swap_mset swap_length)
  have run: "twoopt_optimise C t = Some (Inr u, C', t') \<longrightarrow>
      mset (heuristic_path t') = mset (heuristic_path t) \<and>
      length (heuristic_path t') = length (heuristic_path t) \<and>
      (\<exists>c. routes C' (route_key (heuristic_path t))
             = Some \<lparr>saved_path = heuristic_path t', saved_cost = c\<rparr>)"
  proof
    assume "twoopt_optimise C t = Some (Inr u, C', t')"
    then obtain p c where
      l: "optimise_loop (edges C) (fast t) (int (length (heuristic_path t)))
            (- 1, heuristic_path t) = Some (Inr p)"
      and C': "C' = C\<lparr>routes := (routes C)(route_key p \<mapsto> \<lparr>saved_path = p, saved_cost = c\<rparr>)\<rparr>"
      and t': "t' = t\<lparr>heuristic_path := p, heuristic_cost := c\<rparr>"
      using twoopt_optimise_result by blast
    have m: "mset p = mset (heuristic_path t)" using l by (rule optimise_loop_mset)
    then have k: "route_key p = route_key (heuristic_path t)" by (rule route_key_mset)
    have len: "length p = length (heuristic_path t)" using m by (rule mset_eq_length)
    show "mset (heuristic_path t') = mset (heuristic_path t) \<and>
      length (heuristic_path t') = length (heuristic_path t) \<and>
      (\<exists>c. routes C' (route_key (heuristic_path t))
             = Some \<lparr>saved_path = heuristic_path t', saved_cost = c\<rparr>)"
      using m len k C' t' by simp
  qed
  show ?thesis using sw run by simp
qed

theorem swap_and_search_rearrange_witness:
  "(1 :: nat) \<le> 2 \<and> (2 :: nat) < length start \<and>
   mset (swap start (int 1) (int 2)) = mset start \<and>
   twoopt_optimise doctest_class doctest_tsp
   = Some (Inr (),
       doctest_class\<lparr>routes := (routes doctest_class)(route_key start \<mapsto>
                                  \<lparr>saved_path = [0, 1, 2, 3], saved_cost = 8\<rparr>)\<rparr>,
       doctest_tsp\<lparr>heuristic_path := [0, 1, 2, 3], heuristic_cost := 8\<rparr>) \<and>
   mset [0 :: int, 1, 2, 3] = mset (heuristic_path doctest_tsp)"
proof -
  have l: "(1 :: nat) \<le> 2 \<and> (2 :: nat) < length start" by (simp add: start_def)
  show ?thesis
    using swap_and_search_rearrange
      [of 1 2 start doctest_class doctest_tsp "()"
        "doctest_class\<lparr>routes := (routes doctest_class)(route_key start \<mapsto>
                                  \<lparr>saved_path = [0, 1, 2, 3], saved_cost = 8\<rparr>)\<rparr>"
        "doctest_tsp\<lparr>heuristic_path := [0, 1, 2, 3], heuristic_cost := 8\<rparr>"]
      l doctest_optimise
    by simp
qed

end
